theory Spec2Isabelle
  imports Main "HOL-Library.Word"
begin

section \<open>The transport core of libclub (src/club/transport/core.h)\<close>

text \<open>
  A shallow embedding of \<^verbatim>\<open>club::transport::Core<UnreliableId>\<close>. The class is
  single threaded; every member function becomes a function from the state before the call
  to the state after it. The state holds the fields of the class and, beside them, the
  objects those fields point to (the shared \<^verbatim>\<open>OutMessage\<close> objects, the relays) and
  the calls made to the two application callbacks.
\<close>

subsection \<open>Identifiers\<close>

text \<open>
  Modelled from the spec: \<^verbatim>\<open>uuid\<close> and \<^verbatim>\<open>SequenceNumber\<close> are declared in headers other
  than core.h. The specification gives a node id as an opaque, totally
  ordered value and a sequence number as a 32-bit unsigned integer, so \<open>+ 1\<close> and \<open>- 1\<close>
  wrap around and comparisons are unsigned.
\<close>

type_synonym uuid = nat
type_synonym SequenceNumber = "32 word"
type_synonym bytes = "8 word list"

text \<open>Addresses of heap objects, relay pointers and the identity of a flush callback.\<close>

type_synonym addr = nat
type_synonym relay_ptr = nat
type_synonym callback = nat

text \<open>
  Modelled from the spec: \<^verbatim>\<open>MessageType\<close> distinguishes at least the three types the core
  handles; \<open>other_type\<close> stands for every other value of the discriminator.
\<close>

datatype MessageType = reliable_broadcast | unreliable_broadcast | syn | other_type

datatype AckType = unicast | broadcast

datatype 'k MessageId =
    ReliableBroadcastId SequenceNumber
  | ReliableUnicastId uuid SequenceNumber
  | UnreliableBroadcastId 'k
  | ForwardId

subsection \<open>Messages\<close>

record InMessageFull =
  source :: uuid
  msg_type :: MessageType
  sequence_number :: SequenceNumber
  original_size :: nat
  payload :: bytes

text \<open>A part carries the fields of a full message and the offset of its chunk.\<close>

record InMessagePart = InMessageFull +
  chunk_start :: nat

text \<open>
  Modelled from the spec: \<^verbatim>\<open>InMessagePart::is_full\<close> (transport/in_message_part.h is
  absent): the part covers the entire original message.
\<close>

definition is_full :: "InMessagePart \<Rightarrow> bool" where
  "is_full msg \<longleftrightarrow> chunk_start msg = 0 \<and> length (payload msg) = original_size msg"

record OutMessage =
  om_source :: uuid
  om_targets :: "uuid set"
  om_reliable :: bool
  om_type :: MessageType
  om_sequence_number :: SequenceNumber
  om_payload :: bytes

text \<open>
  Modelled from the spec: \<^verbatim>\<open>OutMessage::reset_payload\<close> (transport/out_message.h is
  absent) replaces the payload in place.
\<close>

definition reset_payload :: "OutMessage \<Rightarrow> bytes \<Rightarrow> OutMessage" where
  "reset_payload m data = m\<lparr>om_payload := data\<rparr>"

text \<open>
  An object owned through \<^verbatim>\<open>std::shared_ptr\<close>: the object and the number of strong
  references to it. The object is destroyed, and every \<^verbatim>\<open>weak_ptr\<close> to it expires, when
  the count reaches zero; the heap then has no entry at its address.
\<close>

record Shared =
  obj :: OutMessage
  use_count :: nat

subsection \<open>Reassembly buffer\<close>

text \<open>
  Modelled from the spec: \<^verbatim>\<open>PendingMessage\<close> (transport/pending_message.h is absent) is
  the reassembly buffer of one inbound message: the header of the message and, for every
  byte of it, the byte once some chunk has brought it. \<open>get_full_message\<close> yields the
  message when every byte is there.
\<close>

record PendingMessage =
  pm_source :: uuid
  pm_type :: MessageType
  pm_sequence_number :: SequenceNumber
  pm_original_size :: nat
  pm_chunks :: "8 word option list"

fun update_chunks :: "nat \<Rightarrow> bytes \<Rightarrow> 8 word option list \<Rightarrow> 8 word option list" where
  "update_chunks start [] cs = cs"
| "update_chunks start (b # bs) cs =
     update_chunks (Suc start) bs (if start < length cs then cs[start := Some b] else cs)"

definition update_payload :: "PendingMessage \<Rightarrow> nat \<Rightarrow> bytes \<Rightarrow> PendingMessage" where
  "update_payload pm start data = pm\<lparr>pm_chunks := update_chunks start data (pm_chunks pm)\<rparr>"

definition get_full_message :: "PendingMessage \<Rightarrow> InMessageFull option" where
  "get_full_message pm =
     (if list_all (\<lambda>c. c \<noteq> None) (pm_chunks pm)
      then Some \<lparr>source = pm_source pm, msg_type = pm_type pm,
                 sequence_number = pm_sequence_number pm,
                 original_size = pm_original_size pm,
                 payload = map the (pm_chunks pm)\<rparr>
      else None)"

definition PendingMessage_of_full :: "InMessageFull \<Rightarrow> PendingMessage" where
  "PendingMessage_of_full msg =
     \<lparr>pm_source = source msg, pm_type = msg_type msg,
      pm_sequence_number = sequence_number msg,
      pm_original_size = original_size msg,
      pm_chunks = map Some (payload msg)\<rparr>"

definition PendingMessage_of_part :: "InMessagePart \<Rightarrow> PendingMessage" where
  "PendingMessage_of_part msg =
     update_payload
       \<lparr>pm_source = source msg, pm_type = msg_type msg,
        pm_sequence_number = sequence_number msg,
        pm_original_size = original_size msg,
        pm_chunks = replicate (original_size msg) None\<rparr>
       (chunk_start msg) (payload msg)"

subsection \<open>Acknowledgement sets\<close>

text \<open>
  \<^verbatim>\<open>AckSet\<close> (transport/ack_set.h) is absent. The core uses its constructor,
  \<^verbatim>\<open>try_add\<close>, \<^verbatim>\<open>can_add\<close>, \<^verbatim>\<open>type\<close> and its iteration; the embedding takes them
  as a parameter, so that what is proved of the core holds for every implementation of the
  set. \<open>try_add\<close> returns its result and the set after the call.
\<close>

record 'a AckSet_ops =
  AckSet_new :: "AckType \<Rightarrow> SequenceNumber \<Rightarrow> 'a"
  try_add :: "'a \<Rightarrow> SequenceNumber \<Rightarrow> bool \<times> 'a"
  can_add :: "'a \<Rightarrow> SequenceNumber \<Rightarrow> bool"
  ack_type :: "'a \<Rightarrow> AckType"
  ack_sns :: "'a \<Rightarrow> SequenceNumber list"

subsection \<open>Targets, relays and the core\<close>

record 'a Sync =
  last_executed_message :: SequenceNumber
  acks :: 'a

record 'a Target =
  sync :: "'a Sync option"
  pending :: "(SequenceNumber \<times> PendingMessage) list"

text \<open>
  Modelled from the spec: \<^verbatim>\<open>Relay\<close> is an external collaborator (its header is absent).
  The core reads its \<^verbatim>\<open>_relay_id\<close> and \<^verbatim>\<open>_targets\<close> and calls \<^verbatim>\<open>add_target\<close>,
  \<^verbatim>\<open>insert_message\<close> and \<^verbatim>\<open>is_sending\<close>. A relay enqueues a strong reference to every
  message it is given.
\<close>

record 'k Relay =
  relay_id :: uuid
  relay_targets :: "uuid set"
  queue :: "('k MessageId \<times> addr) list"
  sending :: bool

definition add_target :: "'k Relay \<Rightarrow> uuid \<Rightarrow> bool \<times> 'k Relay" where
  "add_target r t = (t \<notin> relay_targets r, r\<lparr>relay_targets := insert t (relay_targets r)\<rparr>)"

definition is_sending :: "'k Relay \<Rightarrow> bool" where
  "is_sending r = sending r"

text \<open>
  Modelled from the spec: \<^verbatim>\<open>OutboundAcks\<close> (transport/outbound_acks.h is absent)
  aggregates the acknowledgements this node owes. The core calls its
  \<^verbatim>\<open>acknowledge(source, type, sn)\<close>; the field \<open>outbound_acks\<close> is the list of these
  calls.
\<close>

text \<open>
  The state. The first ten fields are the fields of the class: \<open>messages\<close> is the
  \<^verbatim>\<open>std::map\<close> from message ids to weak pointers, as the list of its entries in key
  order; \<open>on_recv\<close> tells whether the application's receive callback destroys the core
  when it is called with the given source and payload; \<open>on_flush\<close> is the pending flush
  callback, if there is one. The rest is what
  the fields point to and what the application observes: the heap of shared messages, the
  relay objects, and the calls made to the receive and the flush callbacks. The last field
  is the build: with \<open>ndebug\<close> the assertions are compiled out; no function changes it.
\<close>

record ('a, 'k) Core =
  our_id :: uuid
  on_recv :: "uuid \<Rightarrow> bytes \<Rightarrow> bool"
  next_reliable_broadcast_number :: SequenceNumber
  next_message_number :: SequenceNumber
  relays :: "relay_ptr list"
  messages :: "('k MessageId \<times> addr) list"
  on_flush :: "callback option"
  targets :: "uuid \<rightharpoonup> 'a Target"
  outbound_acks :: "(uuid \<times> AckType \<times> SequenceNumber) list"
  was_destroyed :: bool
  heap :: "addr \<rightharpoonup> Shared"
  next_addr :: addr
  relay_store :: "relay_ptr \<Rightarrow> 'k Relay"
  delivered :: "InMessageFull list"
  flushed :: "callback list"
  ndebug :: bool

subsection \<open>Shared and weak pointers\<close>

text \<open>\<^verbatim>\<open>weak_ptr::lock\<close>: the object, unless it has been destroyed.\<close>

definition lock :: "('a, 'k) Core \<Rightarrow> addr \<Rightarrow> OutMessage option" where
  "lock c a =
     (case heap c a of
        None \<Rightarrow> None
      | Some s \<Rightarrow> if 0 < use_count s then Some (obj s) else None)"

text \<open>Writing through a pointer to a live object.\<close>

definition set_obj :: "addr \<Rightarrow> OutMessage \<Rightarrow> ('a, 'k) Core \<Rightarrow> ('a, 'k) Core" where
  "set_obj a m c =
     (case heap c a of
        None \<Rightarrow> c
      | Some s \<Rightarrow> c\<lparr>heap := (heap c)(a \<mapsto> s\<lparr>obj := m\<rparr>)\<rparr>)"

text \<open>\<^verbatim>\<open>make_shared\<close>: a new object at a fresh address, with one strong reference.\<close>

definition make_shared :: "OutMessage \<Rightarrow> ('a, 'k) Core \<Rightarrow> addr \<times> ('a, 'k) Core" where
  "make_shared m c =
     (next_addr c,
      c\<lparr>heap := (heap c)(next_addr c \<mapsto> \<lparr>obj = m, use_count = 1\<rparr>),
        next_addr := Suc (next_addr c)\<rparr>)"

text \<open>Copying and destroying a \<^verbatim>\<open>shared_ptr\<close>.\<close>

definition add_ref :: "addr \<Rightarrow> ('a, 'k) Core \<Rightarrow> ('a, 'k) Core" where
  "add_ref a c =
     (case heap c a of
        None \<Rightarrow> c
      | Some s \<Rightarrow> c\<lparr>heap := (heap c)(a \<mapsto> s\<lparr>use_count := Suc (use_count s)\<rparr>)\<rparr>)"

definition drop_ref :: "addr \<Rightarrow> ('a, 'k) Core \<Rightarrow> ('a, 'k) Core" where
  "drop_ref a c =
     (case heap c a of
        None \<Rightarrow> c
      | Some s \<Rightarrow>
          if use_count s \<le> 1 then c\<lparr>heap := (heap c)(a := None)\<rparr>
          else c\<lparr>heap := (heap c)(a \<mapsto> s\<lparr>use_count := use_count s - 1\<rparr>)\<rparr>)"

text \<open>
  Modelled from the spec: \<^verbatim>\<open>Relay::insert_message\<close> enqueues the message for
  transmission and keeps a strong reference to it.
\<close>

definition insert_message ::
  "relay_ptr \<Rightarrow> 'k MessageId \<Rightarrow> addr \<Rightarrow> ('a, 'k) Core \<Rightarrow> ('a, 'k) Core" where
  "insert_message r mid a c =
     add_ref a
       (c\<lparr>relay_store := (relay_store c)
            (r := (relay_store c r)\<lparr>queue := queue (relay_store c r) @ [(mid, a)]\<rparr>)\<rparr>)"

subsection \<open>The message registry\<close>

text \<open>
  Modelled from the spec: the order of message ids (message_id.h is absent) is by variant,
  then by fields.
\<close>

fun mid_rank :: "'k MessageId \<Rightarrow> nat" where
  "mid_rank (ReliableBroadcastId sn) = 0"
| "mid_rank (ReliableUnicastId t sn) = 1"
| "mid_rank (UnreliableBroadcastId k) = 2"
| "mid_rank ForwardId = 3"

fun mid_less :: "'k::linorder MessageId \<Rightarrow> 'k MessageId \<Rightarrow> bool" where
  "mid_less (ReliableBroadcastId a) (ReliableBroadcastId b) = (a < b)"
| "mid_less (ReliableUnicastId t a) (ReliableUnicastId u b) = (t < u \<or> (t = u \<and> a < b))"
| "mid_less (UnreliableBroadcastId a) (UnreliableBroadcastId b) = (a < b)"
| "mid_less x y = (mid_rank x < mid_rank y)"

fun insert_ordered ::
  "'k::linorder MessageId \<Rightarrow> addr \<Rightarrow> ('k MessageId \<times> addr) list \<Rightarrow> ('k MessageId \<times> addr) list" where
  "insert_ordered k v [] = [(k, v)]"
| "insert_ordered k v ((k', v') # ms) =
     (if mid_less k k' then (k, v) # (k', v') # ms else (k', v') # insert_ordered k v ms)"

text \<open>\<^verbatim>\<open>std::map::emplace\<close> inserts nothing when the key is there already.\<close>

definition emplace ::
  "'k::linorder MessageId \<Rightarrow> addr \<Rightarrow> ('k MessageId \<times> addr) list \<Rightarrow> ('k MessageId \<times> addr) list" where
  "emplace k v ms = (if map_of ms k = None then insert_ordered k v ms else ms)"

definition erase ::
  "'k MessageId \<Rightarrow> ('k MessageId \<times> addr) list \<Rightarrow> ('k MessageId \<times> addr) list" where
  "erase k ms = filter (\<lambda>e. fst e \<noteq> k) ms"

definition keys :: "('x \<rightharpoonup> 'y) \<Rightarrow> 'x set" where
  "keys m = dom m"

subsection \<open>Relays\<close>

definition register_relay :: "('a, 'k) Core \<Rightarrow> relay_ptr \<Rightarrow> ('a, 'k) Core" where
  "register_relay c t =
     c\<lparr>relays := (if t \<in> set (relays c) then relays c else insort t (relays c))\<rparr>"

definition unregister_relay :: "('a, 'k) Core \<Rightarrow> relay_ptr \<Rightarrow> ('a, 'k) Core" where
  "unregister_relay c t = c\<lparr>relays := removeAll t (relays c)\<rparr>"

text \<open>The loop \<^verbatim>\<open>for (auto r : _relays) r->insert_message(id, message)\<close>.\<close>

definition publish :: "'k MessageId \<Rightarrow> addr \<Rightarrow> ('a, 'k) Core \<Rightarrow> ('a, 'k) Core" where
  "publish mid a c = fold (\<lambda>r. insert_message r mid a) (relays c) c"

subsection \<open>Acknowledging\<close>

text \<open>
  \<^verbatim>\<open>acknowledge(const InMessageFull&)\<close>. The result \<open>None\<close> is the failed
  \<^verbatim>\<open>assert(0)\<close> of the default branch; without assertions the branch returns and
  nothing is acknowledged.
\<close>

definition acknowledge :: "('a, 'k) Core \<Rightarrow> InMessageFull \<Rightarrow> ('a, 'k) Core option" where
  "acknowledge c msg =
     (case msg_type msg of
        reliable_broadcast \<Rightarrow>
          Some (c\<lparr>outbound_acks := outbound_acks c @ [(source msg, broadcast, sequence_number msg)]\<rparr>)
      | syn \<Rightarrow>
          Some (c\<lparr>outbound_acks := outbound_acks c @ [(source msg, unicast, sequence_number msg)]\<rparr>)
      | _ \<Rightarrow> if ndebug c then Some c else None)"

subsection \<open>Flush\<close>

definition flush :: "('a, 'k) Core \<Rightarrow> callback \<Rightarrow> ('a, 'k) Core" where
  "flush c cb = c\<lparr>on_flush := Some cb\<rparr>"

text \<open>
  \<open>fires c\<close> is the condition under which \<^verbatim>\<open>try_flush\<close> reaches the call of the
  callback. The callback is moved out of the field before it is called, which leaves the
  field empty.
\<close>

definition fires :: "('a, 'k) Core \<Rightarrow> bool" where
  "fires c \<longleftrightarrow>
     on_flush c \<noteq> None \<and> messages c = [] \<and> \<not> list_ex (\<lambda>r. is_sending (relay_store c r)) (relays c)"

definition try_flush :: "('a, 'k) Core \<Rightarrow> ('a, 'k) Core" where
  "try_flush c =
     (case on_flush c of
        None \<Rightarrow> c
      | Some cb \<Rightarrow>
          if messages c \<noteq> [] then c
          else if list_ex (\<lambda>r. is_sending (relay_store c r)) (relays c) then c
          else c\<lparr>on_flush := None, flushed := flushed c @ [cb]\<rparr>)"

subsection \<open>Acknowledgements received\<close>

text \<open>
  One round of the loop of \<^verbatim>\<open>on_receive_acks\<close>, on the state and the flag
  \<^verbatim>\<open>acked_some\<close>.
\<close>

definition acks_step ::
  "uuid \<Rightarrow> AckType \<Rightarrow> ('a, 'k) Core \<times> bool \<Rightarrow> SequenceNumber \<Rightarrow> ('a, 'k) Core \<times> bool" where
  "acks_step target ty st sn =
     (let c = fst st;
          mid = (case ty of
                   unicast \<Rightarrow> ReliableUnicastId target sn
                 | broadcast \<Rightarrow> ReliableBroadcastId sn)
      in case map_of (messages c) mid of
           None \<Rightarrow> st
         | Some a \<Rightarrow>
             (case lock c a of
                None \<Rightarrow> st
              | Some message \<Rightarrow>
                  let message' = message\<lparr>om_targets := om_targets message - {target}\<rparr>;
                      c1 = set_obj a message' c;
                      c2 = (if om_targets message' = {}
                            then c1\<lparr>messages := erase mid (messages c1)\<rparr> else c1)
                  in (c2, True)))"

definition acks_loop ::
  "'a AckSet_ops \<Rightarrow> ('a, 'k) Core \<Rightarrow> uuid \<Rightarrow> 'a \<Rightarrow> ('a, 'k) Core \<times> bool" where
  "acks_loop ops c target acks_in =
     foldl (acks_step target (ack_type ops acks_in)) (c, False) (ack_sns ops acks_in)"

definition on_receive_acks ::
  "'a AckSet_ops \<Rightarrow> ('a, 'k) Core \<Rightarrow> uuid \<Rightarrow> 'a \<Rightarrow> ('a, 'k) Core" where
  "on_receive_acks ops c target acks_in =
     (let st = acks_loop ops c target acks_in
      in if snd st then try_flush (fst st) else fst st)"

subsection \<open>Sending\<close>

definition broadcast_reliable :: "('a, 'k::linorder) Core \<Rightarrow> bytes \<Rightarrow> ('a, 'k) Core" where
  "broadcast_reliable c data =
     (let sn = next_reliable_broadcast_number c;
          c1 = c\<lparr>next_reliable_broadcast_number := sn + 1\<rparr>;
          alloc = make_shared
                    \<lparr>om_source = our_id c1, om_targets = keys (targets c1), om_reliable = True,
                     om_type = reliable_broadcast, om_sequence_number = sn, om_payload = data\<rparr> c1;
          message = fst alloc;
          c2 = snd alloc;
          mid = ReliableBroadcastId sn;
          c3 = c2\<lparr>messages := emplace mid message (messages c2)\<rparr>
      in drop_ref message (publish mid message c3))"

text \<open>The loop of the branch of \<^verbatim>\<open>add_target_to_transport\<close> for a known target.\<close>

definition requeue ::
  "relay_ptr \<Rightarrow> uuid \<Rightarrow> ('a, 'k) Core \<Rightarrow> 'k MessageId \<times> addr \<Rightarrow> ('a, 'k) Core" where
  "requeue relay new_target c m =
     (case lock c (snd m) of
        None \<Rightarrow> c
      | Some m_ptr \<Rightarrow>
          if new_target \<in> om_targets m_ptr then insert_message relay (fst m) (snd m) c else c)"

definition add_target_to_transport ::
  "('a, 'k::linorder) Core \<Rightarrow> relay_ptr \<Rightarrow> uuid \<Rightarrow> ('a, 'k) Core" where
  "add_target_to_transport c relay new_target =
     (let res = add_target (relay_store c relay) new_target
      in if \<not> fst res then c
         else
           let c0 = c\<lparr>relay_store := (relay_store c)(relay := snd res)\<rparr>
           in case targets c0 new_target of
                None \<Rightarrow>
                  let c1 = c0\<lparr>targets := (targets c0)(new_target \<mapsto> \<lparr>sync = None, pending = []\<rparr>)\<rparr>;
                      sn = next_reliable_broadcast_number c1;
                      alloc = make_shared
                                \<lparr>om_source = our_id c1, om_targets = {new_target}, om_reliable = True,
                                 om_type = syn, om_sequence_number = sn, om_payload = []\<rparr> c1;
                      message = fst alloc;
                      c2 = snd alloc;
                      mid = ReliableUnicastId new_target sn;
                      c3 = c2\<lparr>messages := emplace mid message (messages c2)\<rparr>
                  in drop_ref message (publish mid message c3)
              | Some node \<Rightarrow> foldl (requeue relay new_target) c0 (messages c0))"

definition broadcast_unreliable ::
  "('a, 'k::linorder) Core \<Rightarrow> 'k \<Rightarrow> bytes \<Rightarrow> ('a, 'k) Core" where
  "broadcast_unreliable c ident data =
     (case map_of (messages c) (UnreliableBroadcastId ident) of
        Some a \<Rightarrow>
          (case lock c a of
             Some p \<Rightarrow> set_obj a (reset_payload p data) c
           | None \<Rightarrow> c)
      | None \<Rightarrow>
          let sn = next_message_number c;
              c1 = c\<lparr>next_message_number := sn + 1\<rparr>;
              alloc = make_shared
                        \<lparr>om_source = our_id c1, om_targets = keys (targets c1), om_reliable = False,
                         om_type = unreliable_broadcast, om_sequence_number = sn,
                         om_payload = data\<rparr> c1;
              message = fst alloc;
              c2 = snd alloc;
              mid = UnreliableBroadcastId ident;
              c3 = c2\<lparr>messages := emplace mid message (messages c2)\<rparr>
          in drop_ref message (publish mid message c3))"

text \<open>
  \<^verbatim>\<open>reset_topology\<close>. The shortest-path computation (transport/dijkstra.h) is absent:
  \<open>first_node_to\<close> is its result, \<open>nodes\<close> the nodes of the graph in order.
\<close>

definition reset_topology ::
  "(uuid \<Rightarrow> uuid option) \<Rightarrow> uuid list \<Rightarrow> ('a, 'k::linorder) Core \<Rightarrow> ('a, 'k) Core" where
  "reset_topology first_node_to nodes c =
     (let c1 = c\<lparr>relay_store := (\<lambda>p. if p \<in> set (relays c)
                                       then (relay_store c p)\<lparr>relay_targets := {}\<rparr>
                                       else relay_store c p)\<rparr>
      in foldl (\<lambda>c' target.
                  case first_node_to target of
                    None \<Rightarrow> c'
                  | Some hop \<Rightarrow>
                      (case find (\<lambda>r. relay_id (relay_store c' r) = hop) (relays c') of
                         None \<Rightarrow> c'
                       | Some transport \<Rightarrow> add_target_to_transport c' transport target))
               c1 nodes)"

text \<open>
  \<^verbatim>\<open>release\<close>. The second argument is the caller's \<^verbatim>\<open>shared_ptr\<close>, so the object is
  alive; the function keeps no reference of its own.
\<close>

definition release :: "('a, 'k) Core \<Rightarrow> 'k MessageId \<Rightarrow> addr \<Rightarrow> ('a, 'k) Core" where
  "release c message_id m =
     (case heap c m of
        None \<Rightarrow> c
      | Some s \<Rightarrow>
          if om_source (obj s) \<noteq> our_id c then c
          else if map_of (messages c) message_id = None then c
          else if use_count s > 1 then c
          else c\<lparr>messages := erase message_id (messages c)\<rparr>)"

subsection \<open>Receiving\<close>

text \<open>
  The call \<^verbatim>\<open>_on_recv(msg.source, msg.payload)\<close>: the delivery is recorded, and the
  callback may destroy the core, which sets the flag that \<^verbatim>\<open>_was_destroyed\<close> points to.
\<close>

definition invoke_on_recv :: "('a, 'k) Core \<Rightarrow> InMessageFull \<Rightarrow> ('a, 'k) Core" where
  "invoke_on_recv c msg =
     c\<lparr>delivered := delivered c @ [msg],
       was_destroyed := on_recv c (source msg) (payload msg)\<rparr>"

text \<open>
  The two overloads of \<^verbatim>\<open>add_to_pending\<close>: the target after the call, and the pending
  message the returned reference points to.
\<close>

definition add_to_pending_part :: "'a Target \<Rightarrow> InMessagePart \<Rightarrow> 'a Target \<times> PendingMessage" where
  "add_to_pending_part node msg =
     (case map_of (pending node) (sequence_number msg) of
        None \<Rightarrow>
          (node\<lparr>pending := insort_key fst (sequence_number msg, PendingMessage_of_part msg)
                              (pending node)\<rparr>,
           PendingMessage_of_part msg)
      | Some pm \<Rightarrow>
          (node\<lparr>pending := map (\<lambda>e. if fst e = sequence_number msg
                                     then (fst e, update_payload (snd e) (chunk_start msg) (payload msg))
                                     else e) (pending node)\<rparr>,
           update_payload pm (chunk_start msg) (payload msg)))"

definition add_to_pending_full :: "'a Target \<Rightarrow> InMessageFull \<Rightarrow> 'a Target \<times> PendingMessage" where
  "add_to_pending_full node msg =
     (case map_of (pending node) (sequence_number msg) of
        None \<Rightarrow>
          (node\<lparr>pending := insort_key fst (sequence_number msg, PendingMessage_of_full msg)
                              (pending node)\<rparr>,
           PendingMessage_of_full msg)
      | Some pm \<Rightarrow>
          (node\<lparr>pending := map (\<lambda>e. if fst e = sequence_number msg
                                     then (fst e, update_payload (snd e) 0 (payload msg))
                                     else e) (pending node)\<rparr>,
           update_payload pm 0 (payload msg)))"

text \<open>
  The loop of \<^verbatim>\<open>replay_pending_messages\<close>, on the entries from the iterator on, the
  last executed sequence number and the state. It returns the entries that remain, the last
  executed number and the state; \<open>None\<close> is the failed assertion of \<open>acknowledge\<close>.
\<close>

fun replay_loop ::
  "(SequenceNumber \<times> PendingMessage) list \<Rightarrow> SequenceNumber \<Rightarrow> ('a, 'k) Core \<Rightarrow>
     ((SequenceNumber \<times> PendingMessage) list \<times> SequenceNumber \<times> ('a, 'k) Core) option" where
  "replay_loop [] last_sn c = Some ([], last_sn, c)"
| "replay_loop (e # rest) last_sn c =
     (if fst e \<le> last_sn then replay_loop rest last_sn c
      else if fst e \<noteq> last_sn + 1 then Some (e # rest, last_sn, c)
      else
        (case get_full_message (snd e) of
           None \<Rightarrow> Some (e # rest, last_sn, c)
         | Some msg \<Rightarrow>
             (case acknowledge c msg of
                None \<Rightarrow> None
              | Some c1 \<Rightarrow>
                  let c2 = invoke_on_recv c1 msg
                  in if was_destroyed c2 then Some (e # rest, last_sn, c2)
                     else replay_loop rest (last_sn + 1) c2)))"

definition replay_pending_messages :: "('a, 'k) Core \<Rightarrow> uuid \<Rightarrow> ('a, 'k) Core option" where
  "replay_pending_messages c src =
     (case targets c src of
        None \<Rightarrow> None
      | Some node \<Rightarrow>
          (case sync node of
             None \<Rightarrow> None
           | Some sy \<Rightarrow>
               (case replay_loop (pending node) (last_executed_message sy) c of
                  None \<Rightarrow> None
                | Some (rest, last_sn, c') \<Rightarrow>
                    Some (c'\<lparr>targets := (targets c')
                            (src \<mapsto> node\<lparr>sync := Some (sy\<lparr>last_executed_message := last_sn\<rparr>),
                                         pending := rest\<rparr>)\<rparr>))))"

text \<open>
  \<^verbatim>\<open>on_receive_full\<close>. The result \<open>None\<close> is a failed \<^verbatim>\<open>assert(0)\<close>: a message of
  another type, which a build without assertions ignores.
\<close>

definition on_receive_full ::
  "'a AckSet_ops \<Rightarrow> ('a, 'k) Core \<Rightarrow> InMessageFull \<Rightarrow> ('a, 'k) Core option" where
  "on_receive_full ops c msg =
     (case targets c (source msg) of
        None \<Rightarrow> Some c
      | Some node \<Rightarrow>
          (case msg_type msg of
             reliable_broadcast \<Rightarrow>
               (case sync node of
                  None \<Rightarrow> Some c
                | Some sy \<Rightarrow>
                    let res = try_add ops (acks sy) (sequence_number msg);
                        sy1 = sy\<lparr>acks := snd res\<rparr>;
                        node1 = node\<lparr>sync := Some sy1\<rparr>;
                        c1 = c\<lparr>targets := (targets c)(source msg \<mapsto> node1)\<rparr>
                    in if fst res then
                         (case acknowledge c1 msg of
                            None \<Rightarrow> None
                          | Some c2 \<Rightarrow>
                              if sequence_number msg = last_executed_message sy1 + 1 then
                                let sy2 = sy1\<lparr>last_executed_message := sequence_number msg\<rparr>;
                                    c3 = c2\<lparr>targets := (targets c2)
                                            (source msg \<mapsto> node1\<lparr>sync := Some sy2\<rparr>)\<rparr>;
                                    c4 = invoke_on_recv c3 msg
                                in if was_destroyed c4 then Some c4
                                   else replay_pending_messages c4 (source msg)
                              else if sequence_number msg > last_executed_message sy1 + 1 then
                                Some (c2\<lparr>targets := (targets c2)
                                        (source msg \<mapsto> fst (add_to_pending_full node1 msg))\<rparr>)
                              else Some c2)
                       else Some c1)
           | unreliable_broadcast \<Rightarrow>
               (case sync node of
                  None \<Rightarrow> Some c
                | Some sy \<Rightarrow> Some (invoke_on_recv c msg))
           | syn \<Rightarrow>
               (case acknowledge c msg of
                  None \<Rightarrow> None
                | Some c1 \<Rightarrow>
                    (case sync node of
                       None \<Rightarrow>
                         Some (c1\<lparr>targets := (targets c1)
                                 (source msg \<mapsto>
                                    node\<lparr>sync := Some \<lparr>last_executed_message = sequence_number msg - 1,
                                                       acks = AckSet_new ops broadcast
                                                                (sequence_number msg - 1)\<rparr>\<rparr>)\<rparr>)
                     | Some sy \<Rightarrow> Some c1))
           | other_type \<Rightarrow> if ndebug c then Some c else None))"

definition on_receive_part ::
  "'a AckSet_ops \<Rightarrow> ('a, 'k) Core \<Rightarrow> InMessagePart \<Rightarrow> ('a, 'k) Core option" where
  "on_receive_part ops c msg =
     (if is_full msg then
        on_receive_full ops c
          \<lparr>source = source msg, msg_type = msg_type msg, sequence_number = sequence_number msg,
           original_size = original_size msg, payload = payload msg\<rparr>
      else if msg_type msg \<noteq> reliable_broadcast \<and> msg_type msg \<noteq> unreliable_broadcast then Some c
      else
        (case targets c (source msg) of
           None \<Rightarrow> Some c
         | Some node \<Rightarrow>
             (case sync node of
                None \<Rightarrow> Some c
              | Some sy \<Rightarrow>
                  if \<not> can_add ops (acks sy) (sequence_number msg) then Some c
                  else
                    let res = add_to_pending_part node msg;
                        c1 = c\<lparr>targets := (targets c)(source msg \<mapsto> fst res)\<rparr>
                    in (case get_full_message (snd res) of
                          None \<Rightarrow> Some c1
                        | Some full_msg \<Rightarrow> on_receive_full ops c1 full_msg))))"

text \<open>
  A run of the core on the full messages that arrive, in their order of arrival. The run
  ends when the receive callback has destroyed the core or an assertion has failed.
\<close>

fun receive_all ::
  "'a AckSet_ops \<Rightarrow> ('a, 'k) Core \<Rightarrow> InMessageFull list \<Rightarrow> ('a, 'k) Core" where
  "receive_all ops c [] = c"
| "receive_all ops c (msg # msgs) =
     (if was_destroyed c then c
      else
        (case on_receive_full ops c msg of
           None \<Rightarrow> c
         | Some c' \<Rightarrow> receive_all ops c' msgs))"

subsection \<open>An acknowledgement set after the specification\<close>

text \<open>
  Modelled from the spec: \<^verbatim>\<open>AckSet\<close> (transport/ack_set.h is absent) is a window: the
  highest acknowledged sequence number and the acknowledged ones among the 32 numbers before
  it. \<open>can_add\<close> holds of a number within or above the window; \<open>try_add\<close> moves the window
  up to a higher number and drops what falls off, and returns false for a number below the
  window or already in the set. The iteration yields the numbers in ascending order. The
  window is compared on the unsigned values of the numbers. This instance is what the
  examples below run on.
\<close>

record AckSet =
  as_type :: AckType
  highest :: SequenceNumber
  predecessors :: "SequenceNumber list"

definition AckSet_init :: "AckType \<Rightarrow> SequenceNumber \<Rightarrow> AckSet" where
  "AckSet_init ty seed = \<lparr>as_type = ty, highest = seed, predecessors = []\<rparr>"

definition AckSet_can_add :: "AckSet \<Rightarrow> SequenceNumber \<Rightarrow> bool" where
  "AckSet_can_add s sn \<longleftrightarrow> uint (highest s) - 32 < uint sn"

definition AckSet_try_add :: "AckSet \<Rightarrow> SequenceNumber \<Rightarrow> bool \<times> AckSet" where
  "AckSet_try_add s sn =
     (if highest s < sn then
        (True, s\<lparr>highest := sn,
                 predecessors := filter (\<lambda>p. uint sn - 32 < uint p) (predecessors s @ [highest s])\<rparr>)
      else if \<not> AckSet_can_add s sn then (False, s)
      else if sn = highest s \<or> sn \<in> set (predecessors s) then (False, s)
      else (True, s\<lparr>predecessors := insort sn (predecessors s)\<rparr>))"

definition AckSet_sns :: "AckSet \<Rightarrow> SequenceNumber list" where
  "AckSet_sns s = predecessors s @ [highest s]"

definition spec_AckSet :: "AckSet AckSet_ops" where
  "spec_AckSet =
     \<lparr>AckSet_new = AckSet_init, try_add = AckSet_try_add, can_add = AckSet_can_add,
      ack_type = as_type, ack_sns = AckSet_sns\<rparr>"

subsection \<open>Example states\<close>

text \<open>
  Node 1 with two registered relays, 10 and 11, and the peers 2 and 3 as targets, neither
  of them synchronised yet.
\<close>

definition ex_relay :: "nat Relay" where
  "ex_relay = \<lparr>relay_id = 0, relay_targets = {}, queue = [], sending = False\<rparr>"

definition ex_core :: "(AckSet, nat) Core" where
  "ex_core =
     \<lparr>our_id = 1, on_recv = (\<lambda>src data. False),
      next_reliable_broadcast_number = 5, next_message_number = 0,
      relays = [10, 11], messages = [], on_flush = None,
      targets = [2 \<mapsto> \<lparr>sync = None, pending = []\<rparr>, 3 \<mapsto> \<lparr>sync = None, pending = []\<rparr>],
      outbound_acks = [], was_destroyed = False,
      heap = Map.empty, next_addr = 0, relay_store = (\<lambda>p. ex_relay),
      delivered = [], flushed = [], ndebug = False\<rparr>"

text \<open>The message with which peer 2 opens its stream at sequence number 5.\<close>

definition ex_syn :: InMessageFull where
  "ex_syn = \<lparr>source = 2, msg_type = syn, sequence_number = 5, original_size = 0, payload = []\<rparr>"

text \<open>A part of a message of four bytes from peer 2, and a part that is a whole message.\<close>

definition ex_part :: InMessagePart where
  "ex_part = \<lparr>source = 2, msg_type = reliable_broadcast, sequence_number = 5,
              original_size = 4, payload = [1, 2], chunk_start = 0\<rparr>"

definition ex_whole :: InMessagePart where
  "ex_whole = \<lparr>source = 2, msg_type = syn, sequence_number = 5,
               original_size = 0, payload = [], chunk_start = 0\<rparr>"

text \<open>The same node with no relay, and with the single relay 10.\<close>

definition ex_lonely :: "(AckSet, nat) Core" where
  "ex_lonely = ex_core\<lparr>relays := []\<rparr>"

definition ex_single :: "(AckSet, nat) Core" where
  "ex_single = ex_core\<lparr>relays := [10]\<rparr>"

text \<open>Acknowledgement sets of broadcasts: of 4 and 5, and of 5 alone.\<close>

definition ex_acks_4_5 :: AckSet where
  "ex_acks_4_5 = \<lparr>as_type = broadcast, highest = 5, predecessors = [4]\<rparr>"

definition ex_acks_5 :: AckSet where
  "ex_acks_5 = \<lparr>as_type = broadcast, highest = 5, predecessors = []\<rparr>"

subsection \<open>Runs\<close>

text \<open>
  What can happen to a core: a call of one of its member functions, by the application or
  by a relay, and whatever the relays do on their own to their queues, their sending state
  and the references they hold (\<open>Relay_activity\<close>). A run ends when the core has been
  destroyed or an assertion has failed.
\<close>

datatype ('a, 'k) event =
    Broadcast_reliable bytes
  | Broadcast_unreliable 'k bytes
  | Reset_topology "uuid \<Rightarrow> uuid option" "uuid list"
  | Register_relay relay_ptr
  | Unregister_relay relay_ptr
  | Add_target_to_transport relay_ptr uuid
  | On_receive_part InMessagePart
  | On_receive_full InMessageFull
  | On_receive_acks uuid 'a
  | Release "'k MessageId" addr
  | Relay_activity "addr \<rightharpoonup> Shared" "relay_ptr \<Rightarrow> 'k Relay"
  | Flush callback

fun apply_event ::
  "'a AckSet_ops \<Rightarrow> ('a, 'k::linorder) Core \<Rightarrow> ('a, 'k) event \<Rightarrow> ('a, 'k) Core option" where
  "apply_event ops c (Broadcast_reliable data) = Some (broadcast_reliable c data)"
| "apply_event ops c (Broadcast_unreliable k data) = Some (broadcast_unreliable c k data)"
| "apply_event ops c (Reset_topology first_node_to nodes) = Some (reset_topology first_node_to nodes c)"
| "apply_event ops c (Register_relay r) = Some (register_relay c r)"
| "apply_event ops c (Unregister_relay r) = Some (unregister_relay c r)"
| "apply_event ops c (Add_target_to_transport r t) = Some (add_target_to_transport c r t)"
| "apply_event ops c (On_receive_part msg) = on_receive_part ops c msg"
| "apply_event ops c (On_receive_full msg) = on_receive_full ops c msg"
| "apply_event ops c (On_receive_acks target acks_in) = Some (on_receive_acks ops c target acks_in)"
| "apply_event ops c (Release mid m) = Some (release c mid m)"
| "apply_event ops c (Relay_activity h rs) = Some (c\<lparr>heap := h, relay_store := rs\<rparr>)"
| "apply_event ops c (Flush cb) = Some (flush c cb)"

fun is_Flush :: "('a, 'k) event \<Rightarrow> bool" where
  "is_Flush (Flush cb) = True"
| "is_Flush e = False"

fun is_On_receive_acks :: "('a, 'k) event \<Rightarrow> bool" where
  "is_On_receive_acks (On_receive_acks target acks_in) = True"
| "is_On_receive_acks e = False"


text \<open>Two states with the same pending flush callback and the same calls made to it.\<close>

definition same_flush :: "('a, 'k) Core \<Rightarrow> ('a, 'k) Core \<Rightarrow> bool" where
  "same_flush c c' \<longleftrightarrow> on_flush c' = on_flush c \<and> flushed c' = flushed c"


text \<open>
  Node 1 with the single relay 10 has broadcast to the peers 2 and 3 and waits for the
  flush; then peer 2 has acknowledged.
\<close>

definition ex_waiting :: "(AckSet, nat) Core" where
  "ex_waiting = flush (broadcast_reliable ex_single [7]) 9"

definition ex_half_acked :: "(AckSet, nat) Core" where
  "ex_half_acked = on_receive_acks spec_AckSet ex_waiting 2 ex_acks_5"

subsection \<open>Streams of reliable broadcasts\<close>

text \<open>The reliable broadcasts of the source \<open>S\<close> among the messages delivered.\<close>

definition reliable_from :: "uuid \<Rightarrow> InMessageFull list \<Rightarrow> InMessageFull list" where
  "reliable_from S log = filter (\<lambda>m. source m = S \<and> msg_type m = reliable_broadcast) log"

text \<open>
  The \<open>n\<close> messages of a stream \<open>M\<close> (the message of every sequence number) from the
  sequence number \<open>first\<close> on.
\<close>

definition stream_from ::
  "(SequenceNumber \<Rightarrow> InMessageFull) \<Rightarrow> SequenceNumber \<Rightarrow> nat \<Rightarrow> InMessageFull list" where
  "stream_from M first n = map (\<lambda>i. M (first + of_nat i)) [0..<n]"

text \<open>
  The reorder buffer of \<open>S\<close> holds messages of its stream, each under its own sequence
  number; the buffers of the other peers hold nothing that names \<open>S\<close> as its source.
\<close>

definition buffer_ok ::
  "(SequenceNumber \<Rightarrow> InMessageFull) \<Rightarrow> (SequenceNumber \<times> PendingMessage) list \<Rightarrow> bool" where
  "buffer_ok M es \<longleftrightarrow> (\<forall>e \<in> set es. get_full_message (snd e) = Some (M (fst e)))"

definition others_ok :: "uuid \<Rightarrow> ('a, 'k) Core \<Rightarrow> bool" where
  "others_ok S c \<longleftrightarrow>
     (\<forall>t node. t \<noteq> S \<longrightarrow> targets c t = Some node \<longrightarrow>
        (\<forall>e \<in> set (pending node). pm_source (snd e) \<noteq> S))"

text \<open>
  The invariant of a run: since the state in which the log of deliveries from \<open>S\<close> was
  \<open>base\<close> and the last executed number \<open>l0\<close>, exactly the \<open>n\<close> messages after \<open>l0\<close>
  have been delivered, in order; \<open>bound\<close> counts the messages that have come in.
\<close>

definition in_order ::
  "uuid \<Rightarrow> (SequenceNumber \<Rightarrow> InMessageFull) \<Rightarrow> InMessageFull list \<Rightarrow> SequenceNumber \<Rightarrow> nat \<Rightarrow>
     ('a, 'k) Core \<Rightarrow> nat \<Rightarrow> bool" where
  "in_order S M base l0 bound c n \<longleftrightarrow>
     (\<exists>node sy. targets c S = Some node \<and> sync node = Some sy \<and> buffer_ok M (pending node) \<and>
        (was_destroyed c \<and> n \<le> bound \<or>
         last_executed_message sy = l0 + of_nat n \<and> n + length (pending node) \<le> bound)) \<and>
     others_ok S c \<and>
     reliable_from S (delivered c) = base @ stream_from M (l0 + 1) n"

text \<open>
  Peer 2 has opened its stream with sequence number 5; the message of its stream with the
  number \<open>k\<close> carries the byte \<open>k\<close>.
\<close>

definition ex_synced :: "(AckSet, nat) Core" where
  "ex_synced =
     ex_core\<lparr>outbound_acks := [(2, unicast, 5)],
             targets := (targets ex_core)
               (2 \<mapsto> \<lparr>sync = Some \<lparr>last_executed_message = 4, acks = AckSet_init broadcast 4\<rparr>,
                       pending = []\<rparr>)\<rparr>"

definition ex_stream :: "SequenceNumber \<Rightarrow> InMessageFull" where
  "ex_stream k = \<lparr>source = 2, msg_type = reliable_broadcast, sequence_number = k,
                  original_size = 1, payload = [ucast k]\<rparr>"

text \<open>
  A build without assertions in the same state, and an unreliable broadcast of peer 2 that
  comes in two parts. Unreliable broadcasts are numbered by their own counter: this one has
  the number 6.
\<close>

definition ex_release_build :: "(AckSet, nat) Core" where
  "ex_release_build = ex_synced\<lparr>ndebug := True\<rparr>"

definition ex_half_1 :: InMessagePart where
  "ex_half_1 = \<lparr>source = 2, msg_type = unreliable_broadcast, sequence_number = 6,
                original_size = 2, payload = [8], chunk_start = 0\<rparr>"

definition ex_half_2 :: InMessagePart where
  "ex_half_2 = \<lparr>source = 2, msg_type = unreliable_broadcast, sequence_number = 6,
                original_size = 2, payload = [9], chunk_start = 1\<rparr>"

definition ex_unreliable_6 :: InMessageFull where
  "ex_unreliable_6 = \<lparr>source = 2, msg_type = unreliable_broadcast, sequence_number = 6,
                      original_size = 2, payload = [8, 9]\<rparr>"

text \<open>
  The state after the two parts: the broadcast has been delivered, and its reassembly
  buffer is still in the reorder buffer of peer 2, under the number 6.
\<close>

definition ex_buffered :: "(AckSet, nat) Core" where
  "ex_buffered =
     ex_release_build
       \<lparr>delivered := [ex_unreliable_6],
        targets := (targets ex_release_build)
          (2 \<mapsto> \<lparr>sync = Some \<lparr>last_executed_message = 4, acks = AckSet_init broadcast 4\<rparr>,
                  pending = [(6, \<lparr>pm_source = 2, pm_type = unreliable_broadcast,
                                  pm_sequence_number = 6, pm_original_size = 2,
                                  pm_chunks = [Some 8, Some 9]\<rparr>)]\<rparr>)\<rparr>"

section \<open>Properties\<close>

subsection \<open>The registry, the heap and the relays\<close>

lemma map_of_insert_ordered:
  "map_of ms k = None \<Longrightarrow> map_of (insert_ordered k v ms) = (map_of ms)(k \<mapsto> v)"
  by (induction ms) (auto simp: fun_upd_twist split: if_splits)

lemma map_of_emplace:
  "map_of (emplace k v ms) = (if map_of ms k = None then (map_of ms)(k \<mapsto> v) else map_of ms)"
  by (simp add: emplace_def map_of_insert_ordered)

lemma map_of_erase: "map_of (erase k ms) = (map_of ms)(k := None)"
  by (induction ms) (auto simp: erase_def)

lemma insert_message_frame [simp]:
  "messages (insert_message r i a c) = messages c" "relays (insert_message r i a c) = relays c"
  "targets (insert_message r i a c) = targets c"
  "next_reliable_broadcast_number (insert_message r i a c) = next_reliable_broadcast_number c"
  "next_message_number (insert_message r i a c) = next_message_number c"
  "our_id (insert_message r i a c) = our_id c" "next_addr (insert_message r i a c) = next_addr c"
  "on_flush (insert_message r i a c) = on_flush c" "flushed (insert_message r i a c) = flushed c"
  by (simp_all add: insert_message_def add_ref_def split: option.splits)

lemma insert_message_heap:
  "heap (insert_message r mid a c) =
     (case heap c a of
        None \<Rightarrow> heap c
      | Some s \<Rightarrow> (heap c)(a \<mapsto> s\<lparr>use_count := Suc (use_count s)\<rparr>))"
  by (simp add: insert_message_def add_ref_def split: option.splits)

lemma fold_insert_message_relay_store:
  "distinct rs \<Longrightarrow>
   relay_store (fold (\<lambda>r. insert_message r mid a) rs c) r =
     (if r \<in> set rs then (relay_store c r)\<lparr>queue := queue (relay_store c r) @ [(mid, a)]\<rparr>
      else relay_store c r)"
  by (induction rs arbitrary: c) (auto simp: insert_message_def add_ref_def split: option.splits)

lemma fold_insert_message_heap:
  "heap (fold (\<lambda>r. insert_message r mid a) rs c) =
     (case heap c a of
        None \<Rightarrow> heap c
      | Some s \<Rightarrow> (heap c)(a \<mapsto> s\<lparr>use_count := use_count s + length rs\<rparr>))"
proof (induction rs arbitrary: c)
  case Nil
  then show ?case by (simp add: fun_upd_idem split: option.splits)
next
  case (Cons r rs)
  show ?case
    by (simp add: Cons.IH insert_message_heap split: option.splits)
qed

lemma fold_insert_message_frame:
  "messages (fold (\<lambda>r. insert_message r i a) rs c) = messages c \<and>
   relays (fold (\<lambda>r. insert_message r i a) rs c) = relays c \<and>
   targets (fold (\<lambda>r. insert_message r i a) rs c) = targets c \<and>
   next_reliable_broadcast_number (fold (\<lambda>r. insert_message r i a) rs c) = next_reliable_broadcast_number c \<and>
   next_message_number (fold (\<lambda>r. insert_message r i a) rs c) = next_message_number c \<and>
   our_id (fold (\<lambda>r. insert_message r i a) rs c) = our_id c \<and>
   next_addr (fold (\<lambda>r. insert_message r i a) rs c) = next_addr c \<and>
   on_flush (fold (\<lambda>r. insert_message r i a) rs c) = on_flush c \<and>
   flushed (fold (\<lambda>r. insert_message r i a) rs c) = flushed c"
  by (induction rs arbitrary: c) simp_all

lemma publish_relay_store:
  "distinct (relays c) \<Longrightarrow>
   relay_store (publish mid a c) r =
     (if r \<in> set (relays c) then (relay_store c r)\<lparr>queue := queue (relay_store c r) @ [(mid, a)]\<rparr>
      else relay_store c r)"
  by (simp add: publish_def fold_insert_message_relay_store)

lemma publish_heap:
  "heap (publish mid a c) =
     (case heap c a of
        None \<Rightarrow> heap c
      | Some s \<Rightarrow> (heap c)(a \<mapsto> s\<lparr>use_count := use_count s + length (relays c)\<rparr>))"
  by (simp add: publish_def fold_insert_message_heap)

lemma publish_frame [simp]:
  "messages (publish i a c) = messages c" "relays (publish i a c) = relays c"
  "targets (publish i a c) = targets c"
  "next_reliable_broadcast_number (publish i a c) = next_reliable_broadcast_number c"
  "next_message_number (publish i a c) = next_message_number c"
  "our_id (publish i a c) = our_id c" "next_addr (publish i a c) = next_addr c"
  "on_flush (publish i a c) = on_flush c" "flushed (publish i a c) = flushed c"
  by (simp_all add: publish_def fold_insert_message_frame)

lemma drop_ref_frame [simp]:
  "messages (drop_ref a c) = messages c" "relays (drop_ref a c) = relays c"
  "targets (drop_ref a c) = targets c" "relay_store (drop_ref a c) = relay_store c"
  "next_reliable_broadcast_number (drop_ref a c) = next_reliable_broadcast_number c"
  "next_message_number (drop_ref a c) = next_message_number c"
  "our_id (drop_ref a c) = our_id c" "next_addr (drop_ref a c) = next_addr c"
  "on_flush (drop_ref a c) = on_flush c" "flushed (drop_ref a c) = flushed c"
  by (simp_all add: drop_ref_def split: option.splits)

lemma drop_ref_heap:
  "heap (drop_ref a c) =
     (case heap c a of
        None \<Rightarrow> heap c
      | Some s \<Rightarrow>
          if use_count s \<le> 1 then (heap c)(a := None)
          else (heap c)(a \<mapsto> s\<lparr>use_count := use_count s - 1\<rparr>))"
  by (simp add: drop_ref_def split: option.splits)

lemma set_obj_heap:
  "heap (set_obj a m c) = (case heap c a of None \<Rightarrow> heap c | Some s \<Rightarrow> (heap c)(a \<mapsto> s\<lparr>obj := m\<rparr>))"
  by (simp add: set_obj_def split: option.splits)

lemma set_obj_frame [simp]:
  "messages (set_obj a m c) = messages c" "relays (set_obj a m c) = relays c"
  "targets (set_obj a m c) = targets c" "relay_store (set_obj a m c) = relay_store c"
  "next_reliable_broadcast_number (set_obj a m c) = next_reliable_broadcast_number c"
  "next_message_number (set_obj a m c) = next_message_number c"
  "our_id (set_obj a m c) = our_id c" "next_addr (set_obj a m c) = next_addr c"
  "on_flush (set_obj a m c) = on_flush c" "flushed (set_obj a m c) = flushed c"
  by (simp_all add: set_obj_def split: option.splits)

text \<open>The definitions that the examples unfold when they are evaluated.\<close>

lemmas eval_defs =
  ex_core_def ex_relay_def ex_lonely_def ex_single_def ex_acks_4_5_def ex_acks_5_def
  ex_part_def ex_whole_def ex_syn_def spec_AckSet_def AckSet_init_def AckSet_try_add_def
  AckSet_can_add_def AckSet_sns_def
  broadcast_reliable_def broadcast_unreliable_def add_target_to_transport_def add_target_def
  make_shared_def emplace_def erase_def publish_def insert_message_def add_ref_def drop_ref_def
  lock_def set_obj_def reset_payload_def keys_def release_def
  on_receive_acks_def acks_loop_def acks_step_def try_flush_def flush_def is_sending_def
  Let_def

subsection \<open>Retention of unacknowledged messages\<close>

text \<open>
  \<^verbatim>\<open>on_receive_acks\<close> keeps the entry of a live message for as long as the message has
  a target left.
\<close>

lemma acks_step_keeps_unacknowledged:
  assumes "map_of (messages c) k = Some a" and "lock c a = Some m"
    and "om_targets m - {target} \<noteq> {}"
  shows "map_of (messages (fst (acks_step target ty (c, b) sn))) k = Some a"
  using assms
  by (auto simp add: acks_step_def Let_def map_of_erase split: option.splits)

text \<open>
  Claim C2 says that the registry entry of a reliable message stays until every target has
  acknowledged it, and that no operation removes it while the message still has targets.
  \<^verbatim>\<open>release\<close> does: it looks at the source, the entry and the use count, not at the
  targets (its comment says that a message with targets left must be kept, which the
  function does not do). Node 1 with
  the single relay 10 broadcasts to the peers 2 and 3; peer 2 acknowledges; the relay, done
  with the message, releases its reference, the last one. The entry is there before the
  call, the message still waits for peer 3, and the registry is empty after the call.
\<close>

theorem release_erases_unacknowledged_message:
  "map_of (messages (on_receive_acks spec_AckSet (broadcast_reliable ex_single [7]) 2 ex_acks_5))
     (ReliableBroadcastId 5) = Some 0 \<and>
   map_option om_targets
     (lock (on_receive_acks spec_AckSet (broadcast_reliable ex_single [7]) 2 ex_acks_5) 0) = Some {3} \<and>
   messages (release (on_receive_acks spec_AckSet (broadcast_reliable ex_single [7]) 2 ex_acks_5)
               (ReliableBroadcastId 5) 0) = []"
  by (simp add: eval_defs insert_commute)

subsection \<open>Reliable broadcast\<close>

text \<open>
  Claim C3: \<^verbatim>\<open>broadcast_reliable(data)\<close> takes the current value of
  \<^verbatim>\<open>_next_reliable_broadcast_number\<close> as sequence number and increments the counter,
  builds a reliable message of type \<open>reliable_broadcast\<close> from this node to the keys of
  \<^verbatim>\<open>_targets\<close> with the given payload, registers a weak reference to it under
  \<open>ReliableBroadcastId sn\<close> and hands it to every registered relay. The message lives at
  the address \<open>next_addr c\<close>; with at least one relay it is held by exactly the relays
  afterwards. The registry must not hold the id already (\<^verbatim>\<open>emplace\<close> would keep the old
  entry), and the relays are a set.
\<close>

theorem broadcast_reliable_effect:
  assumes fresh: "map_of (messages c) (ReliableBroadcastId (next_reliable_broadcast_number c)) = None"
      and dist: "distinct (relays c)"
  shows "next_reliable_broadcast_number (broadcast_reliable c data) = next_reliable_broadcast_number c + 1 \<and>
         map_of (messages (broadcast_reliable c data)) =
           (map_of (messages c))(ReliableBroadcastId (next_reliable_broadcast_number c) \<mapsto> next_addr c) \<and>
         (\<forall>r \<in> set (relays c).
            relay_store (broadcast_reliable c data) r =
              (relay_store c r)\<lparr>queue := queue (relay_store c r) @
                 [(ReliableBroadcastId (next_reliable_broadcast_number c), next_addr c)]\<rparr>) \<and>
         (relays c \<noteq> [] \<longrightarrow>
            heap (broadcast_reliable c data) (next_addr c) =
              Some \<lparr>obj = \<lparr>om_source = our_id c, om_targets = dom (targets c), om_reliable = True,
                            om_type = reliable_broadcast,
                            om_sequence_number = next_reliable_broadcast_number c,
                            om_payload = data\<rparr>,
                    use_count = length (relays c)\<rparr>)"
  using assms
  by (cases "relays c")
     (simp_all add: broadcast_reliable_def Let_def make_shared_def 
       publish_relay_store publish_heap drop_ref_heap
       map_of_emplace keys_def)

theorem broadcast_reliable_effect_witness:
  "next_reliable_broadcast_number (broadcast_reliable ex_core [7]) = 6 \<and>
   map_of (messages (broadcast_reliable ex_core [7])) (ReliableBroadcastId 5) = Some 0 \<and>
   queue (relay_store (broadcast_reliable ex_core [7]) 10) = [(ReliableBroadcastId 5, 0)] \<and>
   queue (relay_store (broadcast_reliable ex_core [7]) 11) = [(ReliableBroadcastId 5, 0)] \<and>
   heap (broadcast_reliable ex_core [7]) 0 =
     Some \<lparr>obj = \<lparr>om_source = 1, om_targets = {2, 3}, om_reliable = True,
                   om_type = reliable_broadcast, om_sequence_number = 5, om_payload = [7]\<rparr>,
           use_count = 2\<rparr>"
proof -
  have fresh: "map_of (messages ex_core)
      (ReliableBroadcastId (next_reliable_broadcast_number ex_core)) = None"
    by (simp add: ex_core_def)
  have dist: "distinct (relays ex_core)"
    by (simp add: ex_core_def)
  from broadcast_reliable_effect [OF fresh dist, of "[7]"] show ?thesis
    by (simp add: ex_core_def ex_relay_def insert_commute)
qed

subsection \<open>The syn message of a new target\<close>

text \<open>
  Claim C5: when \<^verbatim>\<open>add_target_to_transport\<close> accepts a target that is new to
  \<^verbatim>\<open>_targets\<close>, the syn message it registers under \<open>ReliableUnicastId new_target sn\<close>
  carries the current value of \<^verbatim>\<open>_next_reliable_broadcast_number\<close>, and the counter is
  left as it was: the message of a following \<^verbatim>\<open>broadcast_reliable\<close> carries the same
  sequence number.
\<close>

theorem add_target_syn_shares_sequence_number:
  assumes accepts: "new_target \<notin> relay_targets (relay_store c relay)"
      and new: "targets c new_target = None"
      and fresh: "map_of (messages c)
                    (ReliableUnicastId new_target (next_reliable_broadcast_number c)) = None"
  shows "map_of (messages (add_target_to_transport c relay new_target)) =
           (map_of (messages c))
             (ReliableUnicastId new_target (next_reliable_broadcast_number c) \<mapsto> next_addr c) \<and>
         (relays c \<noteq> [] \<longrightarrow>
            heap (add_target_to_transport c relay new_target) (next_addr c) =
              Some \<lparr>obj = \<lparr>om_source = our_id c, om_targets = {new_target}, om_reliable = True,
                            om_type = syn,
                            om_sequence_number = next_reliable_broadcast_number c,
                            om_payload = []\<rparr>,
                    use_count = length (relays c)\<rparr>) \<and>
         next_reliable_broadcast_number (add_target_to_transport c relay new_target) =
           next_reliable_broadcast_number c \<and>
         (relays c \<noteq> [] \<longrightarrow>
            map_option (om_sequence_number \<circ> obj)
              (heap (broadcast_reliable (add_target_to_transport c relay new_target) data)
                 (Suc (next_addr c))) =
              Some (next_reliable_broadcast_number c))"
  using assms
  by (cases "relays c")
     (simp_all add: add_target_to_transport_def add_target_def broadcast_reliable_def Let_def
       make_shared_def publish_heap drop_ref_heap map_of_emplace)

theorem add_target_syn_shares_sequence_number_witness:
  "map_of (messages (add_target_to_transport ex_core 10 4)) (ReliableUnicastId 4 5) = Some 0 \<and>
   heap (add_target_to_transport ex_core 10 4) 0 =
     Some \<lparr>obj = \<lparr>om_source = 1, om_targets = {4}, om_reliable = True, om_type = syn,
                   om_sequence_number = 5, om_payload = []\<rparr>,
           use_count = 2\<rparr> \<and>
   next_reliable_broadcast_number (add_target_to_transport ex_core 10 4) = 5 \<and>
   map_option (om_sequence_number \<circ> obj)
     (heap (broadcast_reliable (add_target_to_transport ex_core 10 4) [7]) 1) = Some 5"
proof -
  have a: "4 \<notin> relay_targets (relay_store ex_core 10)"
    and n: "targets ex_core 4 = None"
    and f: "map_of (messages ex_core)
              (ReliableUnicastId 4 (next_reliable_broadcast_number ex_core)) = None"
    by (simp_all add: ex_core_def ex_relay_def)
  from add_target_syn_shares_sequence_number [OF a n f, of "[7]"] show ?thesis
    by (simp add: ex_core_def)
qed

subsection \<open>Unreliable broadcast\<close>

text \<open>
  Claim C6: while the message registered under \<open>UnreliableBroadcastId k\<close> is alive, a
  further \<^verbatim>\<open>broadcast_unreliable(k, d2)\<close> replaces its payload in place: the registry,
  the sequence counter, the heap addresses and the relays' queues are as before, and the one
  registered message carries \<open>d2\<close>. The example makes the two calls one after the other.
\<close>

theorem broadcast_unreliable_coalesces:
  assumes reg: "map_of (messages c) (UnreliableBroadcastId k) = Some a"
      and live: "lock c a = Some m"
  shows "broadcast_unreliable c k d2 = set_obj a (m\<lparr>om_payload := d2\<rparr>) c \<and>
         lock (broadcast_unreliable c k d2) a = Some (m\<lparr>om_payload := d2\<rparr>) \<and>
         messages (broadcast_unreliable c k d2) = messages c \<and>
         next_message_number (broadcast_unreliable c k d2) = next_message_number c \<and>
         next_addr (broadcast_unreliable c k d2) = next_addr c \<and>
         relay_store (broadcast_unreliable c k d2) = relay_store c"
  using assms
  by (auto simp add: broadcast_unreliable_def reset_payload_def lock_def set_obj_def
        split: option.splits if_splits)

theorem broadcast_unreliable_coalesces_witness:
  "lock (broadcast_unreliable (broadcast_unreliable ex_core 3 [1]) 3 [2]) 0 =
     Some \<lparr>om_source = 1, om_targets = {2, 3}, om_reliable = False,
           om_type = unreliable_broadcast, om_sequence_number = 0, om_payload = [2]\<rparr> \<and>
   messages (broadcast_unreliable (broadcast_unreliable ex_core 3 [1]) 3 [2]) =
     [(UnreliableBroadcastId 3, 0)] \<and>
   next_message_number (broadcast_unreliable (broadcast_unreliable ex_core 3 [1]) 3 [2]) = 1 \<and>
   queue (relay_store (broadcast_unreliable (broadcast_unreliable ex_core 3 [1]) 3 [2]) 10) =
     [(UnreliableBroadcastId 3, 0)]"
proof -
  have r: "map_of (messages (broadcast_unreliable ex_core 3 [1])) (UnreliableBroadcastId 3) = Some 0"
    by (simp add: eval_defs)
  have l: "lock (broadcast_unreliable ex_core 3 [1]) 0 =
     Some \<lparr>om_source = 1, om_targets = {2, 3}, om_reliable = False,
           om_type = unreliable_broadcast, om_sequence_number = 0, om_payload = [1]\<rparr>"
    by (simp add: eval_defs insert_commute)
  have m: "messages (broadcast_unreliable ex_core 3 [1]) = [(UnreliableBroadcastId 3, 0)]"
    and n: "next_message_number (broadcast_unreliable ex_core 3 [1]) = 1"
    and q: "queue (relay_store (broadcast_unreliable ex_core 3 [1]) 10) = [(UnreliableBroadcastId 3, 0)]"
    by (simp_all add: eval_defs)
  from broadcast_unreliable_coalesces [OF r l, of "[2]", THEN conjunct2] m n q show ?thesis
    by simp
qed

subsection \<open>Receiving a syn\<close>

text \<open>
  Claim C7: a syn from a source that has a target is acknowledged (as a unicast). If the
  target has no sync yet, it gets one with \<open>last_executed_message = sn - 1\<close> and
  \<open>acks = AckSet(broadcast, sn - 1)\<close>; if it has one, the targets are left as they are.
\<close>

theorem on_receive_full_syn:
  assumes "targets c (source msg) = Some node" and "msg_type msg = syn"
  shows "on_receive_full ops c msg =
     Some (c\<lparr>outbound_acks := outbound_acks c @ [(source msg, unicast, sequence_number msg)],
             targets :=
               (case sync node of
                  None \<Rightarrow> (targets c)(source msg \<mapsto>
                     node\<lparr>sync := Some \<lparr>last_executed_message = sequence_number msg - 1,
                                        acks = AckSet_new ops broadcast (sequence_number msg - 1)\<rparr>\<rparr>)
                | Some sy \<Rightarrow> targets c)\<rparr>)"
  using assms by (simp add: on_receive_full_def acknowledge_def split: option.splits)

theorem on_receive_full_syn_witness:
  "on_receive_full spec_AckSet ex_core ex_syn =
     Some (ex_core\<lparr>outbound_acks := [(2, unicast, 5)],
             targets := (targets ex_core)
               (2 \<mapsto> \<lparr>sync = Some \<lparr>last_executed_message = 4, acks = AckSet_init broadcast 4\<rparr>,
                       pending = []\<rparr>)\<rparr>)"
proof -
  have t: "targets ex_core (source ex_syn) = Some \<lparr>sync = None, pending = []\<rparr>"
    by (simp add: ex_core_def ex_syn_def)
  have s: "msg_type ex_syn = syn"
    by (simp add: ex_syn_def)
  from on_receive_full_syn [OF t s, of spec_AckSet] show ?thesis
    by (simp add: ex_core_def ex_syn_def spec_AckSet_def)
qed

subsection \<open>Receiving a part\<close>

text \<open>
  Claim C8: a part that covers the whole message is handed to \<^verbatim>\<open>on_receive_full\<close> as a
  full message. Any other part leaves the state as it is, unless its type is
  \<open>reliable_broadcast\<close> or \<open>unreliable_broadcast\<close>, its source has a target, the target
  has a sync, and \<open>can_add\<close> accepts its sequence number.
\<close>

theorem on_receive_part_drops_or_delegates:
  "(is_full msg \<longrightarrow>
      on_receive_part ops c msg =
        on_receive_full ops c
          \<lparr>source = source msg, msg_type = msg_type msg, sequence_number = sequence_number msg,
           original_size = original_size msg, payload = payload msg\<rparr>) \<and>
   (\<not> is_full msg \<and>
    \<not> ((msg_type msg = reliable_broadcast \<or> msg_type msg = unreliable_broadcast) \<and>
       (\<exists>node sy. targets c (source msg) = Some node \<and> sync node = Some sy \<and>
           can_add ops (acks sy) (sequence_number msg)))
    \<longrightarrow> on_receive_part ops c msg = Some c)"
  by (auto simp add: on_receive_part_def split: option.splits)

theorem on_receive_part_drops_or_delegates_witness:
  "is_full ex_whole \<and>
   on_receive_part spec_AckSet ex_core ex_whole = on_receive_full spec_AckSet ex_core ex_syn \<and>
   \<not> is_full ex_part \<and>
   on_receive_part spec_AckSet ex_core ex_part = Some ex_core"
proof -
  have a: "is_full ex_whole" and b: "\<not> is_full ex_part"
    by (simp_all add: is_full_def ex_whole_def ex_part_def)
  have c: "\<not> ((msg_type ex_part = reliable_broadcast \<or> msg_type ex_part = unreliable_broadcast) \<and>
       (\<exists>node sy. targets ex_core (source ex_part) = Some node \<and> sync node = Some sy \<and>
           can_add spec_AckSet (acks sy) (sequence_number ex_part)))"
    by (simp add: ex_core_def ex_part_def)
  have d: "on_receive_part spec_AckSet ex_core ex_whole =
      on_receive_full spec_AckSet ex_core
        \<lparr>source = source ex_whole, msg_type = msg_type ex_whole,
         sequence_number = sequence_number ex_whole,
         original_size = original_size ex_whole, payload = payload ex_whole\<rparr>"
    using on_receive_part_drops_or_delegates [of ex_whole spec_AckSet ex_core] a by blast
  have e: "on_receive_part spec_AckSet ex_core ex_part = Some ex_core"
    using on_receive_part_drops_or_delegates [of ex_part spec_AckSet ex_core] b c by blast
  have "\<lparr>source = source ex_whole, msg_type = msg_type ex_whole,
         sequence_number = sequence_number ex_whole,
         original_size = original_size ex_whole, payload = payload ex_whole\<rparr> = ex_syn"
    by (simp add: ex_whole_def ex_syn_def)
  with a b d e show ?thesis
    by simp
qed

subsection \<open>Acknowledgements of expired messages\<close>

lemma acks_step_dead:
  assumes "case map_of (messages c) (case ty of unicast \<Rightarrow> ReliableUnicastId target sn
                 | broadcast \<Rightarrow> ReliableBroadcastId sn) of None \<Rightarrow> True | Some a \<Rightarrow> lock c a = None"
  shows "acks_step target ty (c, b) sn = (c, b)"
  using assms by (auto simp add: acks_step_def Let_def split: option.splits)

lemma foldl_acks_step_dead:
  assumes "\<forall>sn \<in> set sns. case map_of (messages c) (case ty of unicast \<Rightarrow> ReliableUnicastId target sn
                 | broadcast \<Rightarrow> ReliableBroadcastId sn) of None \<Rightarrow> True | Some a \<Rightarrow> lock c a = None"
  shows "foldl (acks_step target ty) (c, b) sns = (c, b)"
  using assms by (induction sns) (simp_all add: acks_step_dead)

text \<open>
  Claim C10: an acknowledged sequence number whose entry is missing, or is there with an
  expired weak reference, neither erases the entry nor sets \<^verbatim>\<open>acked_some\<close>. When that
  holds of every number of the set, the loop ends with the state it began with and the flag
  false, so \<^verbatim>\<open>try_flush\<close> is not called and \<^verbatim>\<open>on_receive_acks\<close> changes nothing.
  In the example a flush callback waits and a broadcast made without any relay has left an
  expired entry.
\<close>

theorem on_receive_acks_expired_entries:
  assumes "\<forall>sn \<in> set (ack_sns ops acks_in).
             case map_of (messages c)
                    (case ack_type ops acks_in of
                       unicast \<Rightarrow> ReliableUnicastId target sn
                     | broadcast \<Rightarrow> ReliableBroadcastId sn) of
               None \<Rightarrow> True
             | Some a \<Rightarrow> lock c a = None"
  shows "acks_loop ops c target acks_in = (c, False) \<and> on_receive_acks ops c target acks_in = c"
  using foldl_acks_step_dead[OF assms] by (simp add: acks_loop_def on_receive_acks_def)

theorem on_receive_acks_expired_entries_witness:
  "messages (flush (broadcast_reliable ex_lonely [7]) 9) = [(ReliableBroadcastId 5, 0)] \<and>
   lock (flush (broadcast_reliable ex_lonely [7]) 9) 0 = None \<and>
   on_receive_acks spec_AckSet (flush (broadcast_reliable ex_lonely [7]) 9) 2 ex_acks_4_5 =
     flush (broadcast_reliable ex_lonely [7]) 9"
proof -
  have m: "messages (flush (broadcast_reliable ex_lonely [7]) 9) = [(ReliableBroadcastId 5, 0)]"
    by (simp add: eval_defs)
  have l: "lock (flush (broadcast_reliable ex_lonely [7]) 9) 0 = None"
    by (simp add: eval_defs)
  have "\<forall>sn \<in> set (ack_sns spec_AckSet ex_acks_4_5).
          case map_of (messages (flush (broadcast_reliable ex_lonely [7]) 9))
                 (case ack_type spec_AckSet ex_acks_4_5 of
                    unicast \<Rightarrow> ReliableUnicastId 2 sn
                  | broadcast \<Rightarrow> ReliableBroadcastId sn) of
            None \<Rightarrow> True
          | Some a \<Rightarrow> lock (flush (broadcast_reliable ex_lonely [7]) 9) a = None"
    by (simp add: m l spec_AckSet_def ex_acks_4_5_def AckSet_sns_def)
  from on_receive_acks_expired_entries [OF this] m l show ?thesis
    by simp
qed

subsection \<open>The flush barrier\<close>

lemma same_flush_refl [simp]: "same_flush c c"
  by (simp add: same_flush_def)

lemma same_flush_trans: "same_flush c c' \<Longrightarrow> same_flush c' c'' \<Longrightarrow> same_flush c c''"
  by (simp add: same_flush_def)

lemma same_flush_drop_ref [simp]: "same_flush c (drop_ref a c') = same_flush c c'"
  by (simp add: same_flush_def)

lemma same_flush_publish [simp]: "same_flush c (publish i a c') = same_flush c c'"
  by (simp add: same_flush_def)

lemma same_flush_set_obj [simp]: "same_flush c (set_obj a m c') = same_flush c c'"
  by (simp add: same_flush_def)

lemma same_flush_insert_message [simp]: "same_flush c (insert_message r i a c') = same_flush c c'"
  by (simp add: same_flush_def)

lemma same_flush_broadcast_reliable: "same_flush c (broadcast_reliable c data)"
  by (simp add: broadcast_reliable_def Let_def make_shared_def) (simp add: same_flush_def)

lemma same_flush_broadcast_unreliable: "same_flush c (broadcast_unreliable c k data)"
  by (simp add: broadcast_unreliable_def Let_def make_shared_def split: option.splits)
     (simp add: same_flush_def)

lemma same_flush_requeue: "same_flush c (requeue r t c m)"
  by (simp add: requeue_def split: option.splits)

lemma same_flush_foldl_requeue: "same_flush c (foldl (requeue r t) c ms)"
proof (induction ms arbitrary: c)
  case Nil
  show ?case by simp
next
  case (Cons m ms)
  from same_flush_trans [OF same_flush_requeue Cons.IH] show ?case by simp
qed

lemma foldl_requeue_flush:
  "on_flush (foldl (requeue r t) c ms) = on_flush c"
  "flushed (foldl (requeue r t) c ms) = flushed c"
  using same_flush_foldl_requeue [of c r t ms] by (simp_all add: same_flush_def)

lemma same_flush_add_target_to_transport: "same_flush c (add_target_to_transport c r t)"
  unfolding same_flush_def add_target_to_transport_def Let_def make_shared_def
  by (simp add: foldl_requeue_flush split: option.splits)

lemma same_flush_reset_topology: "same_flush c (reset_topology f nodes c)"
proof -
  have step: "same_flush c0
      (foldl (\<lambda>c' target.
                case f target of
                  None \<Rightarrow> c'
                | Some hop \<Rightarrow>
                    (case find (\<lambda>r. relay_id (relay_store c' r) = hop) (relays c') of
                       None \<Rightarrow> c'
                     | Some transport \<Rightarrow> add_target_to_transport c' transport target))
             c0 ns)" for c0 :: "('a, 'b) Core" and ns
  proof (induction ns arbitrary: c0)
    case Nil
    show ?case by simp
  next
    case (Cons n ns)
    show ?case
      using same_flush_trans [OF same_flush_add_target_to_transport Cons.IH] Cons.IH
      by (simp split: option.splits)
  qed
  have "same_flush c (c\<lparr>relay_store := rs\<rparr>)" for rs
    by (simp add: same_flush_def)
  from same_flush_trans [OF this step] show ?thesis
    by (simp add: reset_topology_def Let_def)
qed

lemma same_flush_release: "same_flush c (release c mid m)"
  by (simp add: release_def same_flush_def split: option.splits)

lemma same_flush_acknowledge: "acknowledge c msg = Some c' \<Longrightarrow> same_flush c c'"
  by (auto simp add: acknowledge_def same_flush_def split: MessageType.splits if_splits)

lemma same_flush_invoke_on_recv: "same_flush c (invoke_on_recv c msg)"
  by (simp add: invoke_on_recv_def same_flush_def)

lemma same_flush_replay_loop:
  "replay_loop es l c = Some (rest, l', c') \<Longrightarrow> same_flush c c'"
proof (induction es l c rule: replay_loop.induct)
  case (1 last_sn c)
  then show ?case by simp
next
  case (2 e rest0 last_sn c)
  show ?case
  proof (cases "fst e \<le> last_sn")
    case True
    with 2 show ?thesis by simp
  next
    case False
    note le = this
    show ?thesis
    proof (cases "fst e \<noteq> last_sn + 1")
      case True
      with le 2 show ?thesis by simp
    next
      case False
      note eq = this
      show ?thesis
      proof (cases "get_full_message (snd e)")
        case None
        with le eq 2 show ?thesis by simp
      next
        case (Some msg)
        note full = this
        show ?thesis
        proof (cases "acknowledge c msg")
          case None
          with le eq full 2 show ?thesis by simp
        next
          case (Some c1)
          have a: "same_flush c (invoke_on_recv c1 msg)"
            using same_flush_trans [OF same_flush_acknowledge [OF Some] same_flush_invoke_on_recv] .
          show ?thesis
          proof (cases "was_destroyed (invoke_on_recv c1 msg)")
            case True
            with le eq full Some 2 a show ?thesis by (simp add: Let_def)
          next
            case False
            have "same_flush (invoke_on_recv c1 msg) c'"
              using "2.IH"(2) [OF le _ full Some refl False] le eq full Some False "2.prems"
              by (simp add: Let_def)
            with a show ?thesis by (rule same_flush_trans)
          qed
        qed
      qed
    qed
  qed
qed

lemma same_flush_replay_pending_messages:
  "replay_pending_messages c src = Some c' \<Longrightarrow> same_flush c c'"
  using same_flush_replay_loop
  by (fastforce simp add: replay_pending_messages_def same_flush_def split: option.splits)

lemma same_flush_targets_upd [simp]:
  "same_flush c (c'\<lparr>targets := t\<rparr>) = same_flush c c'"
  by (simp add: same_flush_def)

lemma same_flush_on_receive_full:
  assumes "on_receive_full ops c msg = Some c'"
  shows "same_flush c c'"
proof (cases "targets c (source msg)")
  case None
  with assms show ?thesis by (simp add: on_receive_full_def)
next
  case (Some node)
  show ?thesis
  proof (cases "msg_type msg")
    case reliable_broadcast
    show ?thesis
    proof (cases "sync node")
      case None
      with assms Some reliable_broadcast show ?thesis by (simp add: on_receive_full_def)
    next
      case (Some sy)
      note sy = this
      define c1 where "c1 = c\<lparr>targets := (targets c)(source msg \<mapsto>
          node\<lparr>sync := Some (sy\<lparr>acks := snd (try_add ops (acks sy) (sequence_number msg))\<rparr>)\<rparr>)\<rparr>"
      have s1: "same_flush c c1" by (simp add: c1_def)
      show ?thesis
      proof (cases "fst (try_add ops (acks sy) (sequence_number msg))")
        case False
        with assms \<open>targets c (source msg) = Some node\<close> reliable_broadcast sy
        have "c' = c1" by (simp add: on_receive_full_def Let_def c1_def)
        with s1 show ?thesis by simp
      next
        case True
        note ok = this
        show ?thesis
        proof (cases "acknowledge c1 msg")
          case None
          with assms \<open>targets c (source msg) = Some node\<close> reliable_broadcast sy ok
          show ?thesis by (simp add: on_receive_full_def Let_def c1_def)
        next
          case (Some c2)
          have s2: "same_flush c c2"
            using same_flush_trans [OF s1 same_flush_acknowledge [OF Some]] .
          from assms \<open>targets c (source msg) = Some node\<close> reliable_broadcast sy ok Some
          have "same_flush c2 c'"
            using same_flush_replay_pending_messages same_flush_invoke_on_recv
            by (auto simp add: on_receive_full_def Let_def c1_def invoke_on_recv_def same_flush_def
                  split: if_splits dest!: same_flush_replay_pending_messages)
          with s2 show ?thesis by (rule same_flush_trans)
        qed
      qed
    qed
  next
    case unreliable_broadcast
    with assms Some show ?thesis
      by (auto simp add: on_receive_full_def invoke_on_recv_def same_flush_def split: option.splits)
  next
    case syn
    with assms Some show ?thesis
      by (auto simp add: on_receive_full_def acknowledge_def same_flush_def split: option.splits)
  next
    case other_type
    with assms Some show ?thesis
      by (auto simp add: on_receive_full_def split: if_splits)
  qed
qed

lemma same_flush_on_receive_part:
  assumes "on_receive_part ops c msg = Some c'"
  shows "same_flush c c'"
proof -
  have "same_flush c c'" if "on_receive_full ops (c\<lparr>targets := t\<rparr>) m = Some c'" for t m
    using same_flush_on_receive_full [OF that] by (simp add: same_flush_def)
  with assms same_flush_on_receive_full show ?thesis
    by (auto simp add: on_receive_part_def Let_def split: if_splits option.splits)
qed

lemma same_flush_acks_step: "same_flush (fst st) (fst (acks_step target ty st sn))"
  by (simp add: acks_step_def Let_def same_flush_def split: option.splits)

lemma same_flush_acks_loop: "same_flush c (fst (acks_loop ops c target acks_in))"
proof -
  have "same_flush (fst st) (fst (foldl (acks_step target ty) st sns))" for st ty sns
  proof (induction sns arbitrary: st)
    case Nil
    show ?case by simp
  next
    case (Cons sn sns)
    from same_flush_trans [OF same_flush_acks_step Cons.IH] show ?case by simp
  qed
  from this [of "(c, False)"] show ?thesis by (simp add: acks_loop_def)
qed

lemma same_flush_apply_event:
  assumes "apply_event ops c e = Some c'" and "\<not> is_Flush e" and "\<not> is_On_receive_acks e"
  shows "same_flush c c'"
proof (cases e)
  case (Broadcast_reliable data)
  with assms show ?thesis using same_flush_broadcast_reliable by auto
next
  case (Broadcast_unreliable k data)
  with assms show ?thesis using same_flush_broadcast_unreliable by auto
next
  case (Reset_topology f nodes)
  with assms show ?thesis using same_flush_reset_topology by auto
next
  case (Register_relay r)
  with assms show ?thesis by (auto simp add: register_relay_def same_flush_def)
next
  case (Unregister_relay r)
  with assms show ?thesis by (auto simp add: unregister_relay_def same_flush_def)
next
  case (Add_target_to_transport r t)
  with assms show ?thesis using same_flush_add_target_to_transport by auto
next
  case (On_receive_part msg)
  with assms show ?thesis using same_flush_on_receive_part by auto
next
  case (On_receive_full msg)
  with assms show ?thesis using same_flush_on_receive_full by auto
next
  case (On_receive_acks target acks_in)
  with assms show ?thesis by simp
next
  case (Release mid m)
  with assms show ?thesis using same_flush_release by auto
next
  case (Relay_activity h rs)
  with assms show ?thesis by (auto simp add: same_flush_def)
next
  case (Flush cb)
  with assms show ?thesis by simp
qed

lemma try_flush_cases:
  "(on_flush c = None \<and> try_flush c = c) \<or>
   (\<exists>cb. on_flush c = Some cb \<and> \<not> fires c \<and> try_flush c = c) \<or>
   (\<exists>cb. on_flush c = Some cb \<and> fires c \<and>
      try_flush c = c\<lparr>on_flush := None, flushed := flushed c @ [cb]\<rparr>)"
  by (cases "on_flush c") (auto simp add: try_flush_def fires_def)






text \<open>
  Claim C9: \<^verbatim>\<open>flush(callback)\<close> stores the callback and nothing else: a callback stored
  before and not yet called is overwritten, and no callback is called, whatever the state
  of the registry and of the relays. A callback is called only by the
  \<^verbatim>\<open>try_flush\<close> at the end of \<^verbatim>\<open>on_receive_acks\<close>, when an acknowledgement has
  landed: every other event leaves the log of calls as it is.
\<close>

theorem flush_only_records_callback:
  "flush c cb = c\<lparr>on_flush := Some cb\<rparr> \<and>
   flushed (flush c cb) = flushed c \<and>
   flush (flush c cb0) cb = flush c cb \<and>
   (apply_event ops c1 e = Some c2 \<and> flushed c2 \<noteq> flushed c1 \<longrightarrow>
      (\<exists>target acks_in cb1.
         e = On_receive_acks target acks_in \<and>
         snd (acks_loop ops c1 target acks_in) \<and>
         fires (fst (acks_loop ops c1 target acks_in)) \<and>
         on_flush c1 = Some cb1 \<and> flushed c2 = flushed c1 @ [cb1] \<and> on_flush c2 = None))"
proof -
  have "\<exists>target acks_in cb1.
         e = On_receive_acks target acks_in \<and>
         snd (acks_loop ops c1 target acks_in) \<and>
         fires (fst (acks_loop ops c1 target acks_in)) \<and>
         on_flush c1 = Some cb1 \<and> flushed c2 = flushed c1 @ [cb1] \<and> on_flush c2 = None"
    if ap: "apply_event ops c1 e = Some c2" and ne: "flushed c2 \<noteq> flushed c1"
  proof (cases "is_Flush e")
    case True
    then obtain cb' where "e = Flush cb'" by (cases e) simp_all
    with ap ne show ?thesis by (auto simp add: flush_def)
  next
    case False
    show ?thesis
    proof (cases "is_On_receive_acks e")
      case False
      from same_flush_apply_event [OF ap \<open>\<not> is_Flush e\<close> False] ne show ?thesis
        by (simp add: same_flush_def)
    next
      case True
      then obtain target acks_in where e: "e = On_receive_acks target acks_in"
        by (cases e) simp_all
      let ?st = "acks_loop ops c1 target acks_in"
      have sf: "same_flush c1 (fst ?st)" by (rule same_flush_acks_loop)
      from ap e have c2: "c2 = (if snd ?st then try_flush (fst ?st) else fst ?st)"
        by (simp add: on_receive_acks_def Let_def)
      from c2 sf ne have landed: "snd ?st"
        by (auto simp add: same_flush_def split: if_splits)
      with c2 have c2': "c2 = try_flush (fst ?st)" by simp
      from try_flush_cases [of "fst ?st"] c2' sf ne
      obtain cb1 where "on_flush (fst ?st) = Some cb1" "fires (fst ?st)"
        "c2 = (fst ?st)\<lparr>on_flush := None, flushed := flushed (fst ?st) @ [cb1]\<rparr>"
        by (auto simp add: same_flush_def)
      with sf landed e show ?thesis
        by (auto simp add: same_flush_def)
    qed
  qed
  then show ?thesis
    by (auto simp add: flush_def)
qed


lemma ex_half_acked_eval:
  "messages ex_half_acked = [(ReliableBroadcastId 5, 0)]"
  "on_flush ex_half_acked = Some 9" "flushed ex_half_acked = []"
  "relays ex_half_acked = [10]" "sending (relay_store ex_half_acked 10) = False"
  "heap ex_half_acked 0 =
     Some \<lparr>obj = \<lparr>om_source = 1, om_targets = {3}, om_reliable = True,
                   om_type = reliable_broadcast, om_sequence_number = 5, om_payload = [7]\<rparr>,
           use_count = 1\<rparr>"
  "was_destroyed ex_half_acked = False"
  by (simp_all add: ex_half_acked_def ex_waiting_def eval_defs insert_commute)

lemma ex_fully_acked_eval:
  "messages (on_receive_acks spec_AckSet ex_half_acked 3 ex_acks_5) = []"
  "on_flush (on_receive_acks spec_AckSet ex_half_acked 3 ex_acks_5) = None"
  "flushed (on_receive_acks spec_AckSet ex_half_acked 3 ex_acks_5) = [9]"
  "was_destroyed (on_receive_acks spec_AckSet ex_half_acked 3 ex_acks_5) = False"
  by (simp_all add: ex_half_acked_eval on_receive_acks_def acks_loop_def acks_step_def
        spec_AckSet_def AckSet_sns_def ex_acks_5_def lock_def set_obj_def erase_def
        try_flush_def is_sending_def Let_def)



theorem flush_only_records_callback_witness:
  "flushed (flush ex_core 9) = flushed ex_core \<and>
   fires (flush ex_core 9) \<and>
   flush (flush ex_core 8) 9 = flush ex_core 9 \<and>
   snd (acks_loop spec_AckSet ex_half_acked 3 ex_acks_5) \<and>
   fires (fst (acks_loop spec_AckSet ex_half_acked 3 ex_acks_5)) \<and>
   flushed (on_receive_acks spec_AckSet ex_half_acked 3 ex_acks_5) = [9]"
proof -
  have f: "fires (flush ex_core 9)"
    by (simp add: fires_def flush_def ex_core_def ex_relay_def is_sending_def)
  have ap: "apply_event spec_AckSet ex_half_acked (On_receive_acks 3 ex_acks_5) =
      Some (on_receive_acks spec_AckSet ex_half_acked 3 ex_acks_5)"
    by simp
  have ne: "flushed (on_receive_acks spec_AckSet ex_half_acked 3 ex_acks_5) \<noteq> flushed ex_half_acked"
    by (simp add: ex_half_acked_eval ex_fully_acked_eval)
  from flush_only_records_callback
    [of ex_core 9 8 spec_AckSet ex_half_acked "On_receive_acks 3 ex_acks_5"
        "on_receive_acks spec_AckSet ex_half_acked 3 ex_acks_5"] ap ne f
  show ?thesis
    by (auto simp add: ex_half_acked_eval)
qed

subsection \<open>Delivery in order\<close>

lemma stream_from_0 [simp]: "stream_from M first 0 = []"
  by (simp add: stream_from_def)

lemma stream_from_snoc:
  "stream_from M first (Suc n) = stream_from M first n @ [M (first + of_nat n)]"
  by (simp add: stream_from_def)

lemma stream_from_add:
  "stream_from M first (a + b) = stream_from M first a @ stream_from M (first + of_nat a) b"
proof (induction b)
  case 0
  show ?case by simp
next
  case (Suc b)
  have "stream_from M first (a + Suc b) = stream_from M first (a + b) @ [M (first + of_nat (a + b))]"
    using stream_from_snoc [of M first "a + b"] by simp
  with Suc show ?case
    by (simp add: stream_from_snoc add.assoc)
qed

lemma stream_from_Suc_front:
  "stream_from M first (Suc n) = M first # stream_from M (first + 1) n"
  using stream_from_add [of M first 1 n] by (simp add: stream_from_def)

lemma update_chunks_same:
  "\<forall>i < length bs. start + i < length cs \<longrightarrow> cs ! (start + i) = Some (bs ! i) \<Longrightarrow>
   update_chunks start bs cs = cs"
proof (induction bs arbitrary: start cs)
  case Nil
  show ?case by simp
next
  case (Cons b bs)
  have h: "start < length cs \<longrightarrow> cs ! start = Some b"
    using Cons.prems [rule_format, of 0] by simp
  have t: "\<forall>i < length bs. Suc start + i < length cs \<longrightarrow> cs ! (Suc start + i) = Some (bs ! i)"
    using Cons.prems [rule_format, of "Suc i" for i] by simp
  from h have "(if start < length cs then cs[start := Some b] else cs) = cs"
    by (simp add: list_update_same_conv)
  with Cons.IH [OF t] show ?case by simp
qed

lemma get_full_message_update_payload:
  assumes "get_full_message pm = Some m"
  shows "get_full_message (update_payload pm 0 (payload m)) = Some m"
proof -
  from assms have all: "list_all (\<lambda>c. c \<noteq> None) (pm_chunks pm)"
    and p: "payload m = map the (pm_chunks pm)"
    by (auto simp add: get_full_message_def split: if_splits)
  have "\<forall>i < length (payload m). 0 + i < length (pm_chunks pm) \<longrightarrow>
          pm_chunks pm ! (0 + i) = Some (payload m ! i)"
    using all p by (auto simp add: list_all_length)
  from update_chunks_same [OF this] have "update_payload pm 0 (payload m) = pm"
    by (simp add: update_payload_def)
  with assms show ?thesis by simp
qed

lemma get_full_message_of_full: "get_full_message (PendingMessage_of_full m) = Some m"
  by (simp add: get_full_message_def PendingMessage_of_full_def list_all_iff comp_def)

lemma get_full_message_source:
  "get_full_message pm = Some m \<Longrightarrow> source m = pm_source pm"
  by (auto simp add: get_full_message_def split: if_splits)

lemma update_payload_source [simp]: "pm_source (update_payload pm start data) = pm_source pm"
  by (simp add: update_payload_def)

lemma invoke_on_recv_frame [simp]:
  "targets (invoke_on_recv c msg) = targets c"
  "delivered (invoke_on_recv c msg) = delivered c @ [msg]"
  by (simp_all add: invoke_on_recv_def)

lemma acknowledge_frame:
  "acknowledge c msg = Some c' \<Longrightarrow>
     targets c' = targets c \<and> delivered c' = delivered c \<and> was_destroyed c' = was_destroyed c \<and>
     on_recv c' = on_recv c"
  by (auto simp add: acknowledge_def split: MessageType.splits if_splits)

text \<open>What the loop of the replay delivers, for a buffer that holds messages of the stream.\<close>

lemma replay_loop_stream:
  assumes "\<forall>e \<in> set es. get_full_message (snd e) = Some (M (fst e))"
      and "replay_loop es l c = Some (rest, l', c')"
  shows "\<exists>j. delivered c' = delivered c @ stream_from M (l + 1) j \<and>
             j \<le> length es \<and> set rest \<subseteq> set es \<and>
             (was_destroyed c' \<or> l' = l + of_nat j \<and> j + length rest \<le> length es) \<and>
             targets c' = targets c \<and>
             (j = 0 \<longrightarrow> was_destroyed c' = was_destroyed c)"
  using assms
proof (induction es l c rule: replay_loop.induct)
  case (1 last_sn c)
  then show ?case by (auto intro: exI [of _ 0])
next
  case (2 e rest0 last_sn c)
  show ?case
  proof (cases "fst e \<le> last_sn")
    case True
    from "2.IH"(1) [OF True] "2.prems" True
    obtain j where "delivered c' = delivered c @ stream_from M (last_sn + 1) j"
      "j \<le> length rest0" "set rest \<subseteq> set rest0"
      "was_destroyed c' \<or> l' = last_sn + of_nat j \<and> j + length rest \<le> length rest0"
      "targets c' = targets c"
      "j = 0 \<longrightarrow> was_destroyed c' = was_destroyed c"
      by auto
    then show ?thesis by (intro exI [of _ j]) auto
  next
    case False
    note le = this
    show ?thesis
    proof (cases "fst e \<noteq> last_sn + 1")
      case True
      with le "2.prems" show ?thesis by (auto intro: exI [of _ 0])
    next
      case False
      then have k: "fst e = last_sn + 1" by simp
      from "2.prems"(1) k have full: "get_full_message (snd e) = Some (M (last_sn + 1))"
        by simp
      show ?thesis
      proof (cases "acknowledge c (M (last_sn + 1))")
        case None
        with le k full "2.prems" show ?thesis by simp
      next
        case (Some c1)
        note fr = acknowledge_frame [OF Some]
        let ?c2 = "invoke_on_recv c1 (M (last_sn + 1))"
        show ?thesis
        proof (cases "was_destroyed ?c2")
          case True
          with le k full Some "2.prems" have "rest = e # rest0" "l' = last_sn" "c' = ?c2"
            by (auto simp add: Let_def)
          with True fr show ?thesis
            by (intro exI [of _ 1]) (simp add: stream_from_def)
        next
          case False
          from le k full Some False "2.prems"
          have r: "replay_loop rest0 (last_sn + 1) ?c2 = Some (rest, l', c')"
            by (simp add: Let_def)
          from "2.IH"(2) [OF le _ full Some refl False _ r] k "2.prems"(1)
          obtain j where j: "delivered c' = delivered ?c2 @ stream_from M (last_sn + 1 + 1) j"
            "j \<le> length rest0" "set rest \<subseteq> set rest0"
            "was_destroyed c' \<or> l' = last_sn + 1 + of_nat j \<and> j + length rest \<le> length rest0"
            "targets c' = targets ?c2"
            by auto
          show ?thesis
            using j fr
            by (intro exI [of _ "Suc j"]) (auto simp add: stream_from_Suc_front add.assoc)
        qed
      qed
    qed
  qed
qed

text \<open>What the loop delivers in general: messages of its buffer.\<close>

lemma replay_loop_any:
  assumes "replay_loop es l c = Some (rest, l', c')"
  shows "\<exists>ms. delivered c' = delivered c @ ms \<and>
             (\<forall>m \<in> set ms. \<exists>e \<in> set es. get_full_message (snd e) = Some m) \<and>
             set rest \<subseteq> set es \<and> targets c' = targets c"
  using assms
proof (induction es l c rule: replay_loop.induct)
  case (1 last_sn c)
  then show ?case by simp
next
  case (2 e rest0 last_sn c)
  show ?case
  proof (cases "fst e \<le> last_sn")
    case True
    from "2.IH"(1) [OF True] "2.prems" True
    obtain ms where "delivered c' = delivered c @ ms"
      "\<forall>m \<in> set ms. \<exists>e \<in> set rest0. get_full_message (snd e) = Some m"
      "set rest \<subseteq> set rest0" "targets c' = targets c"
      by auto
    then show ?thesis by (intro exI [of _ ms]) auto
  next
    case False
    note le = this
    show ?thesis
    proof (cases "fst e \<noteq> last_sn + 1")
      case True
      with le "2.prems" show ?thesis by auto
    next
      case False
      note k = this
      show ?thesis
      proof (cases "get_full_message (snd e)")
        case None
        with le k "2.prems" show ?thesis by auto
      next
        case (Some msg)
        note full = this
        show ?thesis
        proof (cases "acknowledge c msg")
          case None
          with le k full "2.prems" show ?thesis by simp
        next
          case (Some c1)
          note fr = acknowledge_frame [OF Some]
          let ?c2 = "invoke_on_recv c1 msg"
          show ?thesis
          proof (cases "was_destroyed ?c2")
            case True
            with le k full Some "2.prems" have "rest = e # rest0" "c' = ?c2"
              by (auto simp add: Let_def)
            with fr full show ?thesis
              by (intro exI [of _ "[msg]"]) simp
          next
            case False
            from le k full Some False "2.prems"
            have r: "replay_loop rest0 (last_sn + 1) ?c2 = Some (rest, l', c')"
              by (simp add: Let_def)
            from "2.IH"(2) [OF le k full Some refl False r]
            obtain ms where ms: "delivered c' = delivered ?c2 @ ms"
              "\<forall>m \<in> set ms. \<exists>e \<in> set rest0. get_full_message (snd e) = Some m"
              "set rest \<subseteq> set rest0" "targets c' = targets ?c2"
              by auto
            show ?thesis
              using ms fr full
              by (intro exI [of _ "msg # ms"]) auto
          qed
        qed
      qed
    qed
  qed
qed

text \<open>The branches of \<open>on_receive_full\<close>, one by one.\<close>

lemma on_receive_full_no_target:
  "targets c (source msg) = None \<Longrightarrow> on_receive_full ops c msg = Some c"
  by (simp add: on_receive_full_def)

lemma on_receive_full_unsynced:
  "targets c (source msg) = Some node \<Longrightarrow> sync node = None \<Longrightarrow>
   msg_type msg = reliable_broadcast \<or> msg_type msg = unreliable_broadcast \<Longrightarrow>
   on_receive_full ops c msg = Some c"
  by (auto simp add: on_receive_full_def)

lemma on_receive_full_unreliable:
  "targets c (source msg) = Some node \<Longrightarrow> sync node = Some sy \<Longrightarrow>
   msg_type msg = unreliable_broadcast \<Longrightarrow>
   on_receive_full ops c msg = Some (invoke_on_recv c msg)"
  by (simp add: on_receive_full_def)

lemma receive_syn_synced:
  "targets c (source msg) = Some node \<Longrightarrow> sync node = Some sy \<Longrightarrow> msg_type msg = syn \<Longrightarrow>
   on_receive_full ops c msg =
     Some (c\<lparr>outbound_acks := outbound_acks c @ [(source msg, unicast, sequence_number msg)]\<rparr>)"
  by (simp add: on_receive_full_def acknowledge_def)

lemma receive_syn_unsynced:
  "targets c (source msg) = Some node \<Longrightarrow> sync node = None \<Longrightarrow> msg_type msg = syn \<Longrightarrow>
   on_receive_full ops c msg =
     Some (c\<lparr>outbound_acks := outbound_acks c @ [(source msg, unicast, sequence_number msg)],
             targets := (targets c)(source msg \<mapsto>
                node\<lparr>sync := Some \<lparr>last_executed_message = sequence_number msg - 1,
                                   acks = AckSet_new ops broadcast (sequence_number msg - 1)\<rparr>\<rparr>)\<rparr>)"
  by (simp add: on_receive_full_def acknowledge_def)

lemma on_receive_full_other_type:
  "targets c (source msg) = Some node \<Longrightarrow> msg_type msg = other_type \<Longrightarrow>
   on_receive_full ops c msg = (if ndebug c then Some c else None)"
  by (simp add: on_receive_full_def)

lemma on_receive_full_rejected:
  "targets c (source msg) = Some node \<Longrightarrow> sync node = Some sy \<Longrightarrow>
   msg_type msg = reliable_broadcast \<Longrightarrow>
   \<not> fst (try_add ops (acks sy) (sequence_number msg)) \<Longrightarrow>
   on_receive_full ops c msg =
     Some (c\<lparr>targets := (targets c)(source msg \<mapsto>
             node\<lparr>sync := Some (sy\<lparr>acks := snd (try_add ops (acks sy) (sequence_number msg))\<rparr>)\<rparr>)\<rparr>)"
  by (simp add: on_receive_full_def Let_def)

lemma on_receive_full_past:
  "targets c (source msg) = Some node \<Longrightarrow> sync node = Some sy \<Longrightarrow>
   msg_type msg = reliable_broadcast \<Longrightarrow>
   fst (try_add ops (acks sy) (sequence_number msg)) \<Longrightarrow>
   sequence_number msg \<noteq> last_executed_message sy + 1 \<Longrightarrow>
   \<not> sequence_number msg > last_executed_message sy + 1 \<Longrightarrow>
   on_receive_full ops c msg =
     Some (c\<lparr>targets := (targets c)(source msg \<mapsto>
             node\<lparr>sync := Some (sy\<lparr>acks := snd (try_add ops (acks sy) (sequence_number msg))\<rparr>)\<rparr>),
           outbound_acks := outbound_acks c @ [(source msg, broadcast, sequence_number msg)]\<rparr>)"
  by (simp add: on_receive_full_def Let_def acknowledge_def)

lemma on_receive_full_future:
  "targets c (source msg) = Some node \<Longrightarrow> sync node = Some sy \<Longrightarrow>
   msg_type msg = reliable_broadcast \<Longrightarrow>
   fst (try_add ops (acks sy) (sequence_number msg)) \<Longrightarrow>
   sequence_number msg \<noteq> last_executed_message sy + 1 \<Longrightarrow>
   sequence_number msg > last_executed_message sy + 1 \<Longrightarrow>
   on_receive_full ops c msg =
     Some (c\<lparr>outbound_acks := outbound_acks c @ [(source msg, broadcast, sequence_number msg)],
             targets := (targets c)(source msg \<mapsto>
               fst (add_to_pending_full
                      (node\<lparr>sync := Some (sy\<lparr>acks := snd (try_add ops (acks sy) (sequence_number msg))\<rparr>)\<rparr>)
                      msg))\<rparr>)"
  by (simp add: on_receive_full_def Let_def acknowledge_def)

lemma on_receive_full_next:
  "targets c (source msg) = Some node \<Longrightarrow> sync node = Some sy \<Longrightarrow>
   msg_type msg = reliable_broadcast \<Longrightarrow>
   fst (try_add ops (acks sy) (sequence_number msg)) \<Longrightarrow>
   sequence_number msg = last_executed_message sy + 1 \<Longrightarrow>
   on_receive_full ops c msg =
     (let c4 = invoke_on_recv
                 (c\<lparr>outbound_acks := outbound_acks c @ [(source msg, broadcast, sequence_number msg)],
                    targets := (targets c)(source msg \<mapsto>
                      node\<lparr>sync := Some (sy\<lparr>acks := snd (try_add ops (acks sy) (sequence_number msg)),
                                            last_executed_message := sequence_number msg\<rparr>)\<rparr>)\<rparr>)
                 msg
      in if was_destroyed c4 then Some c4 else replay_pending_messages c4 (source msg))"
  by (simp add: on_receive_full_def Let_def acknowledge_def invoke_on_recv_def)

lemma add_to_pending_full_sync [simp]:
  "sync (fst (add_to_pending_full node msg)) = sync node"
  by (simp add: add_to_pending_full_def split: option.splits)

lemma add_to_pending_full_length:
  "length (pending (fst (add_to_pending_full node msg))) \<le> Suc (length (pending node))"
  by (simp add: add_to_pending_full_def split: option.splits)

lemma add_to_pending_full_entries:
  assumes "e \<in> set (pending (fst (add_to_pending_full node msg)))"
  shows "e \<in> set (pending node) \<or>
         e = (sequence_number msg, PendingMessage_of_full msg) \<or>
         (\<exists>pm. (sequence_number msg, pm) \<in> set (pending node) \<and>
               e = (sequence_number msg, update_payload pm 0 (payload msg)))"
proof (cases "map_of (pending node) (sequence_number msg)")
  case None
  with assms show ?thesis
    by (auto simp add: add_to_pending_full_def set_insort_key)
next
  case (Some pm0)
  with assms have "e \<in> (\<lambda>e. if fst e = sequence_number msg
                           then (fst e, update_payload (snd e) 0 (payload msg)) else e) `
                      set (pending node)"
    by (simp add: add_to_pending_full_def)
  then obtain e0 where e0: "e0 \<in> set (pending node)"
    "e = (if fst e0 = sequence_number msg
          then (fst e0, update_payload (snd e0) 0 (payload msg)) else e0)"
    by blast
  show ?thesis
  proof (cases "fst e0 = sequence_number msg")
    case True
    with e0 have "(sequence_number msg, snd e0) \<in> set (pending node)"
      by (metis prod.collapse)
    with e0 True show ?thesis by auto
  next
    case False
    with e0 show ?thesis by simp
  qed
qed

lemma buffer_ok_add_to_pending_full:
  assumes "buffer_ok M (pending node)" and "msg = M (sequence_number msg)"
  shows "buffer_ok M (pending (fst (add_to_pending_full node msg)))"
  unfolding buffer_ok_def
proof
  fix e
  assume "e \<in> set (pending (fst (add_to_pending_full node msg)))"
  from add_to_pending_full_entries [OF this]
  show "get_full_message (snd e) = Some (M (fst e))"
  proof (elim disjE exE conjE)
    assume "e \<in> set (pending node)"
    with assms(1) show ?thesis by (simp add: buffer_ok_def)
  next
    assume "e = (sequence_number msg, PendingMessage_of_full msg)"
    with assms(2) show ?thesis by (simp add: get_full_message_of_full)
  next
    fix pm
    assume pm: "(sequence_number msg, pm) \<in> set (pending node)"
      and e: "e = (sequence_number msg, update_payload pm 0 (payload msg))"
    from pm assms(1) have "get_full_message pm = Some (M (sequence_number msg))"
      by (auto simp add: buffer_ok_def)
    with assms(2) have "get_full_message pm = Some msg" by simp
    from get_full_message_update_payload [OF this] e assms(2) show ?thesis by simp
  qed
qed

lemma pm_source_add_to_pending_full:
  assumes "\<forall>e \<in> set (pending node). pm_source (snd e) \<noteq> S" and "source msg \<noteq> S"
    and "e \<in> set (pending (fst (add_to_pending_full node msg)))"
  shows "pm_source (snd e) \<noteq> S"
  using add_to_pending_full_entries [OF assms(3)] assms(1,2)
  by (auto simp add: PendingMessage_of_full_def)

lemma replay_pending_messages_Some:
  assumes "replay_pending_messages c src = Some c'"
  obtains node sy rest l' c''
  where "targets c src = Some node" and "sync node = Some sy"
    and "replay_loop (pending node) (last_executed_message sy) c = Some (rest, l', c'')"
    and "c' = c''\<lparr>targets := (targets c'')
            (src \<mapsto> node\<lparr>sync := Some (sy\<lparr>last_executed_message := l'\<rparr>), pending := rest\<rparr>)\<rparr>"
  using assms by (auto simp add: replay_pending_messages_def split: option.splits)

lemma reliable_from_append [simp]:
  "reliable_from S (xs @ ys) = reliable_from S xs @ reliable_from S ys"
  by (simp add: reliable_from_def)

lemma reliable_from_other:
  "\<forall>m \<in> set ms. source m \<noteq> S \<Longrightarrow> reliable_from S ms = []"
  by (induction ms) (simp_all add: reliable_from_def)

lemma others_ok_upd_same:
  "others_ok S c \<Longrightarrow> targets c' = (targets c)(S \<mapsto> node) \<Longrightarrow> others_ok S c'"
  by (simp add: others_ok_def)

lemma others_ok_upd_other:
  "others_ok S c \<Longrightarrow> targets c' = (targets c)(t \<mapsto> node) \<Longrightarrow>
   \<forall>e \<in> set (pending node). pm_source (snd e) \<noteq> S \<Longrightarrow> others_ok S c'"
  by (auto simp add: others_ok_def)

lemma others_ok_same_targets:
  "others_ok S c \<Longrightarrow> targets c' = targets c \<Longrightarrow> others_ok S c'"
  by (simp add: others_ok_def)

lemma other_source_upd:
  assumes "others_ok S c" and "t \<noteq> S"
    and "\<forall>e \<in> set (pending node'). pm_source (snd e) \<noteq> S"
    and "targets c' = (targets c)(t \<mapsto> node')"
    and "reliable_from S (delivered c') = reliable_from S (delivered c)"
  shows "targets c' S = targets c S \<and> others_ok S c' \<and>
         reliable_from S (delivered c') = reliable_from S (delivered c)"
  using assms by (auto simp add: others_ok_def)

text \<open>A message of another peer leaves what concerns \<open>S\<close> as it is.\<close>

lemma on_receive_full_other_source:
  assumes st: "on_receive_full ops c msg = Some c'" and ne: "source msg \<noteq> S"
      and ok: "others_ok S c"
  shows "targets c' S = targets c S \<and> others_ok S c' \<and>
         reliable_from S (delivered c') = reliable_from S (delivered c)"
proof (cases "targets c (source msg)")
  case None
  with st ok show ?thesis by (simp add: on_receive_full_no_target)
next
  case (Some node)
  note node = this
  from ok node ne have src: "\<forall>e \<in> set (pending node). pm_source (snd e) \<noteq> S"
    by (auto simp add: others_ok_def)
  have msg: "reliable_from S [msg] = []"
    using ne by (simp add: reliable_from_def)
  have same: ?thesis if "targets c' = targets c" "delivered c' = delivered c \<or> delivered c' = delivered c @ [msg]"
    using that ok msg by (auto simp add: others_ok_def)
  show ?thesis
  proof (cases "sync node")
    case None
    show ?thesis
    proof (cases "msg_type msg")
      case syn
      from st receive_syn_unsynced [OF node None syn, of ops]
      have "c' = c\<lparr>outbound_acks := outbound_acks c @ [(source msg, unicast, sequence_number msg)],
             targets := (targets c)(source msg \<mapsto>
                node\<lparr>sync := Some \<lparr>last_executed_message = sequence_number msg - 1,
                                   acks = AckSet_new ops broadcast (sequence_number msg - 1)\<rparr>\<rparr>)\<rparr>"
        by simp
      then show ?thesis
        using src by (intro other_source_upd [OF ok ne, of "node\<lparr>sync := Some \<lparr>last_executed_message = sequence_number msg - 1,
                                   acks = AckSet_new ops broadcast (sequence_number msg - 1)\<rparr>\<rparr>"]) simp_all
    next
      case other_type
      with st node ok show ?thesis
        by (auto simp add: on_receive_full_other_type split: if_splits)
    next
      case reliable_broadcast
      with st ok on_receive_full_unsynced [OF node None, of ops] show ?thesis by simp
    next
      case unreliable_broadcast
      with st ok on_receive_full_unsynced [OF node None, of ops] show ?thesis by simp
    qed
  next
    case (Some sy)
    note sy = this
    show ?thesis
    proof (cases "msg_type msg")
      case syn
      from st receive_syn_synced [OF node sy syn, of ops]
      show ?thesis by (intro same) auto
    next
      case other_type
      with st node ok show ?thesis
        by (auto simp add: on_receive_full_other_type split: if_splits)
    next
      case unreliable_broadcast
      from st on_receive_full_unreliable [OF node sy unreliable_broadcast, of ops]
      show ?thesis by (intro same) auto
    next
      case reliable_broadcast
      note rb = this
      let ?node1 = "node\<lparr>sync := Some (sy\<lparr>acks := snd (try_add ops (acks sy) (sequence_number msg))\<rparr>)\<rparr>"
      show ?thesis
      proof (cases "fst (try_add ops (acks sy) (sequence_number msg))")
        case False
        from st on_receive_full_rejected [OF node sy rb False]
        have "c' = c\<lparr>targets := (targets c)(source msg \<mapsto> ?node1)\<rparr>" by simp
        then show ?thesis
          using src by (intro other_source_upd [OF ok ne, of ?node1]) simp_all
      next
        case True
        note added = this
        show ?thesis
        proof (cases "sequence_number msg = last_executed_message sy + 1")
          case False
          note nx = this
          show ?thesis
          proof (cases "sequence_number msg > last_executed_message sy + 1")
            case False
            from st on_receive_full_past [OF node sy rb added nx False]
            have "c' = c\<lparr>targets := (targets c)(source msg \<mapsto> ?node1),
                outbound_acks := outbound_acks c @ [(source msg, broadcast, sequence_number msg)]\<rparr>"
              by simp
            then show ?thesis
              using src by (intro other_source_upd [OF ok ne, of ?node1]) simp_all
          next
            case True
            have p: "\<forall>e \<in> set (pending (fst (add_to_pending_full ?node1 msg))). pm_source (snd e) \<noteq> S"
              using pm_source_add_to_pending_full [of ?node1 S msg] src ne by simp
            from st on_receive_full_future [OF node sy rb added nx True]
            have "c' = c\<lparr>outbound_acks := outbound_acks c @ [(source msg, broadcast, sequence_number msg)],
                targets := (targets c)(source msg \<mapsto> fst (add_to_pending_full ?node1 msg))\<rparr>"
              by simp
            then show ?thesis
              using p by (intro other_source_upd [OF ok ne, of "fst (add_to_pending_full ?node1 msg)"]) simp_all
          qed
        next
          case True
          define node3 where "node3 =
            node\<lparr>sync := Some (sy\<lparr>acks := snd (try_add ops (acks sy) (sequence_number msg)),
                                  last_executed_message := sequence_number msg\<rparr>)\<rparr>"
          define c3 where "c3 =
            c\<lparr>outbound_acks := outbound_acks c @ [(source msg, broadcast, sequence_number msg)],
              targets := (targets c)(source msg \<mapsto> node3)\<rparr>"
          define c4 where "c4 = invoke_on_recv c3 msg"
          have t4: "targets c4 = (targets c)(source msg \<mapsto> node3)"
            and d4: "delivered c4 = delivered c @ [msg]"
            by (simp_all add: c4_def c3_def)
          have p3: "pending node3 = pending node" by (simp add: node3_def)
          have c': "(if was_destroyed c4 then Some c4 else replay_pending_messages c4 (source msg)) = Some c'"
            unfolding c4_def c3_def node3_def
            using st on_receive_full_next [OF node sy rb added True] by (simp only: Let_def)
          show ?thesis
          proof (cases "was_destroyed c4")
            case True
            with c' have "c' = c4" by simp
            then show ?thesis
              using src msg by (intro other_source_upd [OF ok ne, of node3]) (simp_all add: t4 d4 p3)
          next
            case False
            with c' have "replay_pending_messages c4 (source msg) = Some c'" by simp
            then obtain node4 sy4 rest l' c''
              where n4: "targets c4 (source msg) = Some node4"
                and r: "replay_loop (pending node4) (last_executed_message sy4) c4 = Some (rest, l', c'')"
                and e: "c' = c''\<lparr>targets := (targets c'')
                   (source msg \<mapsto> node4\<lparr>sync := Some (sy4\<lparr>last_executed_message := l'\<rparr>),
                                         pending := rest\<rparr>)\<rparr>"
              by (rule replay_pending_messages_Some)
            from n4 have "node4 = node3" by (simp add: t4)
            with p3 have p4: "pending node4 = pending node" by simp
            from replay_loop_any [OF r] obtain ms
              where ms: "delivered c'' = delivered c4 @ ms"
                "\<forall>m \<in> set ms. \<exists>e \<in> set (pending node4). get_full_message (snd e) = Some m"
                "set rest \<subseteq> set (pending node4)" "targets c'' = targets c4"
              by auto
            have "\<forall>m \<in> set ms. source m \<noteq> S"
              using ms(2) src p4 get_full_message_source by fastforce
            then have rms: "reliable_from S ms = []" by (rule reliable_from_other)
            have pr: "\<forall>e \<in> set rest. pm_source (snd e) \<noteq> S"
              using ms(3) src p4 by auto
            have rmms: "reliable_from S (msg # ms) = []"
              using msg rms reliable_from_append [of S "[msg]" ms] by simp
            show ?thesis
              using pr e ms(1,4) d4 rmms
              by (intro other_source_upd [OF ok ne,
                    of "node4\<lparr>sync := Some (sy4\<lparr>last_executed_message := l'\<rparr>), pending := rest\<rparr>"])
                 (simp_all add: t4)
          qed
        qed
      qed
    qed
  qed
qed

lemma in_orderI:
  assumes "targets c S = Some node" and "sync node = Some sy" and "buffer_ok M (pending node)"
    and "was_destroyed c \<and> n \<le> bound \<or>
         last_executed_message sy = l0 + of_nat n \<and> n + length (pending node) \<le> bound"
    and "others_ok S c"
    and "reliable_from S (delivered c) = base @ stream_from M (l0 + 1) n"
  shows "in_order S M base l0 bound c n"
  using assms by (auto simp add: in_order_def)

lemma reliable_from_stream:
  assumes "\<forall>k. source (M k) = S \<and> msg_type (M k) = reliable_broadcast \<and> sequence_number (M k) = k"
  shows "reliable_from S (stream_from M first j) = stream_from M first j"
  using assms by (simp add: reliable_from_def stream_from_def)

lemma buffer_ok_subset: "buffer_ok M es \<Longrightarrow> set rest \<subseteq> set es \<Longrightarrow> buffer_ok M rest"
  by (auto simp add: buffer_ok_def)

text \<open>A message of \<open>S\<close> keeps the invariant.\<close>

lemma on_receive_full_same_source:
  assumes inv: "in_order S M base l0 bound c n" and nd: "\<not> was_destroyed c"
    and st: "on_receive_full ops c msg = Some c'" and src: "source msg = S"
    and stream: "\<forall>k. source (M k) = S \<and> msg_type (M k) = reliable_broadcast \<and>
                     sequence_number (M k) = k"
    and fs: "msg_type msg = reliable_broadcast \<longrightarrow> msg = M (sequence_number msg)"
  shows "\<exists>n'. in_order S M base l0 (Suc bound) c' n'"
proof -
  from inv nd obtain node sy
    where node: "targets c (source msg) = Some node" and sy: "sync node = Some sy"
      and buf: "buffer_ok M (pending node)"
      and lst: "last_executed_message sy = l0 + of_nat n"
      and bnd: "n + length (pending node) \<le> bound"
      and ok: "others_ok S c"
      and log: "reliable_from S (delivered c) = base @ stream_from M (l0 + 1) n"
    by (auto simp add: in_order_def src)
  have keep: "in_order S M base l0 (Suc bound) c' n"
    if "targets c' = (targets c)(S \<mapsto> node')" "sync node' = Some sy'"
       "last_executed_message sy' = last_executed_message sy"
       "buffer_ok M (pending node')" "length (pending node') \<le> Suc (length (pending node))"
       "reliable_from S (delivered c') = reliable_from S (delivered c)"
    for node' sy'
  proof (rule in_orderI [of c' S node' sy'])
    show "targets c' S = Some node'" using that(1) by simp
    show "others_ok S c'" using others_ok_upd_same [OF ok that(1)] .
    show "was_destroyed c' \<and> n \<le> Suc bound \<or>
          last_executed_message sy' = l0 + of_nat n \<and> n + length (pending node') \<le> Suc bound"
      using that(3,5) lst bnd by simp
  qed (use that log in simp_all)
  have same: "(targets c)(S \<mapsto> node) = targets c"
    using node src by (simp add: fun_upd_idem)
  show ?thesis
  proof (cases "msg_type msg")
    case syn
    from st receive_syn_synced [OF node sy syn, of ops]
    have "c' = c\<lparr>outbound_acks := outbound_acks c @ [(source msg, unicast, sequence_number msg)]\<rparr>"
      by simp
    then have "in_order S M base l0 (Suc bound) c' n"
      using sy buf same by (intro keep [of node sy]) simp_all
    then show ?thesis ..
  next
    case other_type
    with st node have "c' = c"
      by (auto simp add: on_receive_full_other_type split: if_splits)
    then have "in_order S M base l0 (Suc bound) c' n"
      using sy buf same by (intro keep [of node sy]) simp_all
    then show ?thesis ..
  next
    case unreliable_broadcast
    from st on_receive_full_unreliable [OF node sy unreliable_broadcast, of ops]
    have "c' = invoke_on_recv c msg" by simp
    then have "in_order S M base l0 (Suc bound) c' n"
      using sy buf same unreliable_broadcast
      by (intro keep [of node sy]) (simp_all add: reliable_from_def)
    then show ?thesis ..
  next
    case reliable_broadcast
    note rb = this
    with fs have m: "msg = M (sequence_number msg)" by simp
    let ?sy1 = "sy\<lparr>acks := snd (try_add ops (acks sy) (sequence_number msg))\<rparr>"
    let ?node1 = "node\<lparr>sync := Some ?sy1\<rparr>"
    show ?thesis
    proof (cases "fst (try_add ops (acks sy) (sequence_number msg))")
      case False
      from st on_receive_full_rejected [OF node sy rb False]
      have "c' = c\<lparr>targets := (targets c)(source msg \<mapsto> ?node1)\<rparr>" by simp
      then have "in_order S M base l0 (Suc bound) c' n"
        using buf src by (intro keep [of ?node1 ?sy1]) simp_all
      then show ?thesis ..
    next
      case True
      note added = this
      show ?thesis
      proof (cases "sequence_number msg = last_executed_message sy + 1")
        case False
        note nx = this
        show ?thesis
        proof (cases "sequence_number msg > last_executed_message sy + 1")
          case False
          from st on_receive_full_past [OF node sy rb added nx False]
          have "c' = c\<lparr>targets := (targets c)(source msg \<mapsto> ?node1),
              outbound_acks := outbound_acks c @ [(source msg, broadcast, sequence_number msg)]\<rparr>"
            by simp
          then have "in_order S M base l0 (Suc bound) c' n"
            using buf src by (intro keep [of ?node1 ?sy1]) simp_all
          then show ?thesis ..
        next
          case True
          from st on_receive_full_future [OF node sy rb added nx True]
          have e: "c' = c\<lparr>outbound_acks := outbound_acks c @ [(source msg, broadcast, sequence_number msg)],
              targets := (targets c)(source msg \<mapsto> fst (add_to_pending_full ?node1 msg))\<rparr>"
            by simp
          have b: "buffer_ok M (pending (fst (add_to_pending_full ?node1 msg)))"
            using buffer_ok_add_to_pending_full [of M ?node1 msg] buf m by simp
          have l: "length (pending (fst (add_to_pending_full ?node1 msg))) \<le> Suc (length (pending node))"
            using add_to_pending_full_length [of ?node1 msg] by simp
          have "in_order S M base l0 (Suc bound) c' n"
            using e b l src
            by (intro keep [of "fst (add_to_pending_full ?node1 msg)" ?sy1]) simp_all
          then show ?thesis ..
        qed
      next
        case True
        note nx = this
        define node3 where "node3 =
          node\<lparr>sync := Some (sy\<lparr>acks := snd (try_add ops (acks sy) (sequence_number msg)),
                                last_executed_message := sequence_number msg\<rparr>)\<rparr>"
        define c3 where "c3 =
          c\<lparr>outbound_acks := outbound_acks c @ [(source msg, broadcast, sequence_number msg)],
            targets := (targets c)(source msg \<mapsto> node3)\<rparr>"
        define c4 where "c4 = invoke_on_recv c3 msg"
        have t4: "targets c4 = (targets c)(S \<mapsto> node3)"
          and d4: "delivered c4 = delivered c @ [msg]"
          by (simp_all add: c4_def c3_def src)
        have p3: "pending node3 = pending node" by (simp add: node3_def)
        have sn: "sequence_number msg = l0 + 1 + of_nat n"
          using nx lst by simp
        have log4: "reliable_from S (delivered c4) = base @ stream_from M (l0 + 1) (Suc n)"
          using log m sn src rb by (simp add: d4 stream_from_snoc reliable_from_def)
        have ok4: "others_ok S c4"
          using others_ok_upd_same [OF ok t4] .
        have c': "(if was_destroyed c4 then Some c4 else replay_pending_messages c4 (source msg)) = Some c'"
          unfolding c4_def c3_def node3_def
          using st on_receive_full_next [OF node sy rb added nx] by (simp only: Let_def)
        show ?thesis
        proof (cases "was_destroyed c4")
          case True
          with c' have "c' = c4" by simp
          moreover have "in_order S M base l0 (Suc bound) c4 (Suc n)"
          proof (rule in_orderI [of c4 S node3])
            show "targets c4 S = Some node3" by (simp add: t4)
            show "sync node3 = Some (sy\<lparr>acks := snd (try_add ops (acks sy) (sequence_number msg)),
                                last_executed_message := sequence_number msg\<rparr>)"
              by (simp add: node3_def)
            show "buffer_ok M (pending node3)" using buf p3 by simp
            show "was_destroyed c4 \<and> Suc n \<le> Suc bound \<or>
               last_executed_message (sy\<lparr>acks := snd (try_add ops (acks sy) (sequence_number msg)),
                                last_executed_message := sequence_number msg\<rparr>) = l0 + of_nat (Suc n) \<and>
               Suc n + length (pending node3) \<le> Suc bound"
              using True bnd by simp
          qed (rule ok4, rule log4)
          ultimately show ?thesis by blast
        next
          case False
          with c' have "replay_pending_messages c4 (source msg) = Some c'" by simp
          then obtain node4 sy4 rest l' c''
            where n4: "targets c4 (source msg) = Some node4"
              and s4: "sync node4 = Some sy4"
              and r: "replay_loop (pending node4) (last_executed_message sy4) c4 = Some (rest, l', c'')"
              and e: "c' = c''\<lparr>targets := (targets c'')
                 (source msg \<mapsto> node4\<lparr>sync := Some (sy4\<lparr>last_executed_message := l'\<rparr>),
                                       pending := rest\<rparr>)\<rparr>"
            by (rule replay_pending_messages_Some)
          from n4 have n43: "node4 = node3" by (simp add: t4 src)
          with p3 have p4: "pending node4 = pending node" by simp
          from n43 s4 have l4: "last_executed_message sy4 = sequence_number msg"
            by (auto simp add: node3_def)
          from buf p4 have "\<forall>e \<in> set (pending node4). get_full_message (snd e) = Some (M (fst e))"
            by (simp add: buffer_ok_def)
          from replay_loop_stream [OF this r] obtain j
            where j: "delivered c'' = delivered c4 @ stream_from M (last_executed_message sy4 + 1) j"
              "j \<le> length (pending node4)" "set rest \<subseteq> set (pending node4)"
              "was_destroyed c'' \<or>
               l' = last_executed_message sy4 + of_nat j \<and> j + length rest \<le> length (pending node4)"
              "targets c'' = targets c4"
            by auto
          have first: "l0 + 1 + of_nat (Suc n) = last_executed_message sy4 + 1"
            using l4 sn by simp
          have split: "stream_from M (l0 + 1) (Suc n + j) =
              stream_from M (l0 + 1) (Suc n) @ stream_from M (last_executed_message sy4 + 1) j"
            using stream_from_add [of M "l0 + 1" "Suc n" j] by (simp only: first)
          have "delivered c' = delivered c4 @ stream_from M (last_executed_message sy4 + 1) j"
            using e j(1) by simp
          then have "reliable_from S (delivered c') =
              reliable_from S (delivered c4) @
              reliable_from S (stream_from M (last_executed_message sy4 + 1) j)"
            by (simp only: reliable_from_append)
          also have "\<dots> = (base @ stream_from M (l0 + 1) (Suc n)) @
              stream_from M (last_executed_message sy4 + 1) j"
            by (simp only: log4 reliable_from_stream [OF stream])
          also have "\<dots> = base @ stream_from M (l0 + 1) (Suc n + j)"
            by (simp only: split append_assoc)
          finally have logc:
            "reliable_from S (delivered c') = base @ stream_from M (l0 + 1) (Suc n + j)" .
          have "in_order S M base l0 (Suc bound) c' (Suc n + j)"
          proof (rule in_orderI
              [of c' S "node4\<lparr>sync := Some (sy4\<lparr>last_executed_message := l'\<rparr>), pending := rest\<rparr>"
                  "sy4\<lparr>last_executed_message := l'\<rparr>"])
            show "targets c' S =
                Some (node4\<lparr>sync := Some (sy4\<lparr>last_executed_message := l'\<rparr>), pending := rest\<rparr>)"
              using e src by simp
            show "buffer_ok M (pending (node4\<lparr>sync := Some (sy4\<lparr>last_executed_message := l'\<rparr>),
                                           pending := rest\<rparr>))"
              using buffer_ok_subset [OF buf, of rest] j(3) p4 by simp
            show "others_ok S c'"
              using others_ok_upd_same [OF ok4, of c'] e j(5) src by simp
            show "reliable_from S (delivered c') = base @ stream_from M (l0 + 1) (Suc n + j)"
              by (rule logc)
            show "was_destroyed c' \<and> Suc n + j \<le> Suc bound \<or>
                  last_executed_message (sy4\<lparr>last_executed_message := l'\<rparr>) = l0 + of_nat (Suc n + j) \<and>
                  Suc n + j +
                    length (pending (node4\<lparr>sync := Some (sy4\<lparr>last_executed_message := l'\<rparr>),
                                           pending := rest\<rparr>)) \<le> Suc bound"
              using j(2,4) e p4 bnd l4 sn by auto
          qed simp
          then show ?thesis ..
        qed
      qed
    qed
  qed
qed

lemma in_order_mono:
  "in_order S M base l0 bound c n \<Longrightarrow> bound \<le> bound' \<Longrightarrow> in_order S M base l0 bound' c n"
  by (auto simp add: in_order_def)

lemma in_order_step:
  assumes inv: "in_order S M base l0 bound c n" and nd: "\<not> was_destroyed c"
    and st: "on_receive_full ops c msg = Some c'"
    and stream: "\<forall>k. source (M k) = S \<and> msg_type (M k) = reliable_broadcast \<and>
                     sequence_number (M k) = k"
    and fs: "source msg = S \<and> msg_type msg = reliable_broadcast \<longrightarrow> msg = M (sequence_number msg)"
  shows "\<exists>n'. in_order S M base l0 (Suc bound) c' n'"
proof (cases "source msg = S")
  case True
  with fs have "msg_type msg = reliable_broadcast \<longrightarrow> msg = M (sequence_number msg)" by simp
  from on_receive_full_same_source [OF inv nd st True stream this] show ?thesis .
next
  case False
  from inv have ok: "others_ok S c" by (simp add: in_order_def)
  from on_receive_full_other_source [OF st False ok]
  have "targets c' S = targets c S" "others_ok S c'"
    "reliable_from S (delivered c') = reliable_from S (delivered c)"
    by simp_all
  with inv nd have "in_order S M base l0 (Suc bound) c' n"
    by (auto simp add: in_order_def)
  then show ?thesis ..
qed

lemma in_order_receive_all:
  assumes "in_order S M base l0 bound c n"
    and "\<forall>k. source (M k) = S \<and> msg_type (M k) = reliable_broadcast \<and> sequence_number (M k) = k"
    and "\<forall>m \<in> set msgs. source m = S \<and> msg_type m = reliable_broadcast \<longrightarrow>
           m = M (sequence_number m)"
  shows "\<exists>n'. in_order S M base l0 (bound + length msgs) (receive_all ops c msgs) n'"
  using assms(1,3)
proof (induction msgs arbitrary: c n bound)
  case Nil
  then show ?case by auto
next
  case (Cons msg msgs)
  have stay: "\<exists>n'. in_order S M base l0 (bound + length (msg # msgs)) c n'"
    using in_order_mono [OF Cons.prems(1), of "bound + length (msg # msgs)"] by auto
  show ?case
  proof (cases "was_destroyed c")
    case True
    with stay show ?thesis by simp
  next
    case False
    show ?thesis
    proof (cases "on_receive_full ops c msg")
      case None
      with False stay show ?thesis by simp
    next
      case (Some c')
      from Cons.prems(2) have "source msg = S \<and> msg_type msg = reliable_broadcast \<longrightarrow>
          msg = M (sequence_number msg)" by simp
      from in_order_step [OF Cons.prems(1) False Some assms(2) this]
      obtain n' where "in_order S M base l0 (Suc bound) c' n'" ..
      from Cons.IH [OF this] Cons.prems(2)
      obtain n'' where "in_order S M base l0 (Suc bound + length msgs) (receive_all ops c' msgs) n''"
        by auto
      with False Some show ?thesis by auto
    qed
  qed
qed

lemma distinct_stream_numbers:
  assumes "\<forall>k. sequence_number (M k) = k" and "n \<le> 2 ^ 32"
  shows "distinct (map sequence_number (stream_from M (first :: SequenceNumber) n))"
proof -
  have "inj_on (\<lambda>i. first + (of_nat i :: SequenceNumber)) {0..<n}"
  proof (rule inj_onI)
    fix i j
    assume i: "i \<in> {0..<n}" and j: "j \<in> {0..<n}"
      and "first + (of_nat i :: SequenceNumber) = first + of_nat j"
    then have "unat (of_nat i :: SequenceNumber) = unat (of_nat j :: SequenceNumber)" by simp
    then have "i mod 2 ^ 32 = j mod 2 ^ 32" by (simp add: unat_of_nat)
    with i j assms(2) show "i = j" by simp
  qed
  then have "distinct (map (\<lambda>i. first + (of_nat i :: SequenceNumber)) [0..<n])"
    by (simp add: distinct_map)
  with assms(1) show ?thesis by (simp add: stream_from_def comp_def)
qed

text \<open>
  When only full messages arrive, the reorder buffers hold complete reliable broadcasts
  and nothing else. Let then the target of the sender \<open>S\<close> have a sync, with last executed
  number \<open>l\<close>, and let the full messages \<open>msgs\<close> arrive at \<^verbatim>\<open>on_receive_full\<close> in any
  order, with repetitions, mixed with messages of any type from any peer; the reliable
  broadcasts of \<open>S\<close> among them are messages of its stream \<open>M\<close>. Then the reliable
  broadcasts of \<open>S\<close> that the receive callback gets are the messages \<open>M (l + 1)\<close>,
  \<open>M (l + 2)\<close>, ... of the stream, in this order and without a gap, up to some number \<open>n\<close>
  of them; \<open>n\<close> is at most the number of messages that came in, and as long as that is at
  most \<open>2^32\<close> no sequence number is delivered twice. This holds for every implementation
  of the acknowledgement set. It needs the buffers to be such: the buffer of \<open>S\<close> holds
  messages of the stream under their numbers, the other buffers nothing with source \<open>S\<close>.
\<close>

lemma in_order_delivery_of_full_messages:
  assumes target: "targets c S = Some node" and synced: "sync node = Some sy"
    and buffer: "\<forall>e \<in> set (pending node). get_full_message (snd e) = Some (M (fst e))"
    and others: "\<forall>t node'. t \<noteq> S \<longrightarrow> targets c t = Some node' \<longrightarrow>
                   (\<forall>e \<in> set (pending node'). pm_source (snd e) \<noteq> S)"
    and stream: "\<forall>k. source (M k) = S \<and> msg_type (M k) = reliable_broadcast \<and>
                     sequence_number (M k) = k"
    and arrivals: "\<forall>m \<in> set msgs. source m = S \<and> msg_type m = reliable_broadcast \<longrightarrow>
                     m = M (sequence_number m)"
  shows "\<exists>n. n \<le> length (pending node) + length msgs \<and>
             reliable_from S (delivered (receive_all ops c msgs)) =
               reliable_from S (delivered c) @ stream_from M (last_executed_message sy + 1) n \<and>
             (length (pending node) + length msgs \<le> 2 ^ 32 \<longrightarrow>
                distinct (map sequence_number (stream_from M (last_executed_message sy + 1) n)))"
proof -
  have "in_order S M (reliable_from S (delivered c)) (last_executed_message sy)
          (length (pending node)) c 0"
    using target synced buffer others
    by (intro in_orderI [of c S node sy]) (simp_all add: buffer_ok_def others_ok_def)
  from in_order_receive_all [OF this stream arrivals, of ops]
  obtain n where n: "in_order S M (reliable_from S (delivered c)) (last_executed_message sy)
      (length (pending node) + length msgs) (receive_all ops c msgs) n" ..
  then have le: "n \<le> length (pending node) + length msgs"
    by (auto simp add: in_order_def)
  from stream have "\<forall>k. sequence_number (M k) = k" by simp
  from distinct_stream_numbers [OF this, of n "last_executed_message sy + 1"] le
  have "length (pending node) + length msgs \<le> 2 ^ 32 \<longrightarrow>
      distinct (map sequence_number (stream_from M (last_executed_message sy + 1) n))"
    by simp
  with n le show ?thesis
    by (intro exI [of _ n]) (simp add: in_order_def)
qed

lemma ex_run_eval:
  "delivered (receive_all spec_AckSet ex_synced [ex_stream 7, ex_stream 5, ex_stream 6]) =
     [ex_stream 5, ex_stream 6, ex_stream 7]"
  by (simp add: ex_synced_def ex_core_def ex_stream_def on_receive_full_def Let_def
        spec_AckSet_def AckSet_try_add_def AckSet_can_add_def AckSet_init_def acknowledge_def
        invoke_on_recv_def replay_pending_messages_def add_to_pending_full_def
        PendingMessage_of_full_def get_full_message_def update_payload_def)

lemma length_stream_from [simp]: "length (stream_from M first n) = n"
  by (simp add: stream_from_def)

lemma in_order_delivery_of_full_messages_example:
  "reliable_from 2
     (delivered (receive_all spec_AckSet ex_synced [ex_stream 7, ex_stream 5, ex_stream 6])) =
     stream_from ex_stream 5 3 \<and>
   stream_from ex_stream 5 3 = [ex_stream 5, ex_stream 6, ex_stream 7] \<and>
   distinct (map sequence_number (stream_from ex_stream 5 3))"
proof -
  let ?node = "\<lparr>sync = Some \<lparr>last_executed_message = 4, acks = AckSet_init broadcast 4\<rparr>,
                pending = []\<rparr>"
  let ?msgs = "[ex_stream 7, ex_stream 5, ex_stream 6]"
  have target: "targets ex_synced 2 = Some ?node"
    by (simp add: ex_synced_def)
  have synced: "sync ?node = Some \<lparr>last_executed_message = 4, acks = AckSet_init broadcast 4\<rparr>"
    by simp
  have buffer: "\<forall>e \<in> set (pending ?node). get_full_message (snd e) = Some (ex_stream (fst e))"
    by simp
  have others: "\<forall>t node'. t \<noteq> 2 \<longrightarrow> targets ex_synced t = Some node' \<longrightarrow>
      (\<forall>e \<in> set (pending node'). pm_source (snd e) \<noteq> 2)"
    by (auto simp add: ex_synced_def ex_core_def split: if_splits)
  have stream: "\<forall>k. source (ex_stream k) = 2 \<and> msg_type (ex_stream k) = reliable_broadcast \<and>
      sequence_number (ex_stream k) = k"
    by (simp add: ex_stream_def)
  have arrivals: "\<forall>m \<in> set ?msgs. source m = 2 \<and> msg_type m = reliable_broadcast \<longrightarrow>
      m = ex_stream (sequence_number m)"
    by (simp add: ex_stream_def)
  have log: "reliable_from 2 (delivered (receive_all spec_AckSet ex_synced ?msgs)) =
      [ex_stream 5, ex_stream 6, ex_stream 7]"
    unfolding ex_run_eval by (simp add: reliable_from_def ex_stream_def)
  have base: "reliable_from 2 (delivered ex_synced) = []"
    by (simp add: ex_synced_def ex_core_def reliable_from_def)
  from in_order_delivery_of_full_messages
    [OF target synced buffer others stream arrivals, of spec_AckSet]
  obtain n where n: "reliable_from 2 (delivered (receive_all spec_AckSet ex_synced ?msgs)) =
        reliable_from 2 (delivered ex_synced) @ stream_from ex_stream (4 + 1) n"
      "length (pending ?node) + length ?msgs \<le> 2 ^ 32 \<longrightarrow>
         distinct (map sequence_number (stream_from ex_stream (4 + 1) n))"
    by auto
  from n(1) log base have "length (stream_from ex_stream (4 + 1) n) = 3"
    by simp
  then have n3: "n = 3" by simp
  have s: "stream_from ex_stream 5 3 = [ex_stream 5, ex_stream 6, ex_stream 7]"
    by (simp add: stream_from_def upt_rec [of 0 3] upt_rec [of 1 3] upt_rec [of 2 3] numeral_3_eq_3)
  from n n3 base s show ?thesis
    by simp
qed

subsection \<open>Unreliable parts in the reorder buffer\<close>

text \<open>The definitions that the evaluation of the receive path unfolds.\<close>

lemmas receive_eval_defs =
  ex_release_build_def ex_synced_def ex_core_def ex_stream_def ex_half_1_def ex_half_2_def
  ex_unreliable_6_def ex_buffered_def
  on_receive_part_def on_receive_full_def is_full_def Let_def
  spec_AckSet_def AckSet_try_add_def AckSet_can_add_def AckSet_init_def acknowledge_def
  invoke_on_recv_def replay_pending_messages_def add_to_pending_full_def add_to_pending_part_def
  PendingMessage_of_full_def PendingMessage_of_part_def get_full_message_def update_payload_def

lemma replicate_2: "replicate 2 x = [x, x]"
  by (simp add: numeral_2_eq_2)

lemma ex_buffered_reached:
  "Option.bind (on_receive_part spec_AckSet ex_release_build ex_half_1)
     (\<lambda>c. on_receive_part spec_AckSet c ex_half_2) = Some ex_buffered"
  by (simp add: receive_eval_defs replicate_2)

lemma ex_buffered_run:
  "delivered (receive_all spec_AckSet ex_buffered [ex_stream 5, ex_stream 6, ex_stream 7]) =
     [ex_unreliable_6, ex_stream 5, ex_unreliable_6, ex_stream 7]"
  "outbound_acks (receive_all spec_AckSet ex_buffered [ex_stream 5, ex_stream 6, ex_stream 7]) =
     [(2, unicast, 5), (2, broadcast, 5), (2, broadcast, 6), (2, broadcast, 7)]"
  by (simp_all add: receive_eval_defs replicate_2)

lemma ex_buffered_debug:
  "on_receive_full spec_AckSet (ex_buffered\<lparr>ndebug := False\<rparr>) (ex_stream 5) = None"
  by (simp add: receive_eval_defs replicate_2)

text \<open>
  Claim C1 says that the reliable broadcasts of a sender \<open>S\<close> with an established sync
  are delivered as the contiguous prefix of its stream from \<open>last_executed + 1\<close> on, none
  of them twice, however the full messages arrive. The code does not keep this when the
  reorder buffer holds the reassembly buffer of an unreliable broadcast:
  \<^verbatim>\<open>on_receive_part\<close> puts the parts of unreliable broadcasts into the same buffer as the
  reliable ones, under numbers of another counter, and leaves the buffer there when the
  message is complete and delivered. In the example peer 2 is synchronised at 4 and an
  unreliable broadcast with the number 6 has come in two parts. Then the reliable
  broadcasts 5, 6 and 7 arrive in order at \<^verbatim>\<open>on_receive_full\<close>. After 5 the replay takes
  the buffered unreliable broadcast for the reliable 6, delivers it a second time and
  advances \<open>last_executed\<close> to 6; the reliable broadcast 6 is then acknowledged and
  dropped, and 7 is delivered: the application gets 5 and 7, which is no prefix of the
  stream. With assertions the replay stops at the \<^verbatim>\<open>assert(0)\<close> of \<^verbatim>\<open>acknowledge\<close>,
  which says that it expects reliable broadcasts only.
\<close>

theorem reliable_message_acknowledged_never_delivered:
  "Option.bind (on_receive_part spec_AckSet ex_release_build ex_half_1)
     (\<lambda>c. on_receive_part spec_AckSet c ex_half_2) = Some ex_buffered \<and>
   map_option (map_option last_executed_message \<circ> sync) (targets ex_buffered 2) = Some (Some 4) \<and>
   delivered (receive_all spec_AckSet ex_buffered [ex_stream 5, ex_stream 6, ex_stream 7]) =
     [ex_unreliable_6, ex_stream 5, ex_unreliable_6, ex_stream 7] \<and>
   reliable_from 2
     (delivered (receive_all spec_AckSet ex_buffered [ex_stream 5, ex_stream 6, ex_stream 7])) =
     [ex_stream 5, ex_stream 7] \<and>
   (2, broadcast, 6) \<in>
     set (outbound_acks (receive_all spec_AckSet ex_buffered [ex_stream 5, ex_stream 6, ex_stream 7])) \<and>
   \<not> (\<exists>n. reliable_from 2
            (delivered (receive_all spec_AckSet ex_buffered [ex_stream 5, ex_stream 6, ex_stream 7])) =
          stream_from ex_stream 5 n) \<and>
   on_receive_full spec_AckSet (ex_buffered\<lparr>ndebug := False\<rparr>) (ex_stream 5) = None"
proof -
  let ?c = "receive_all spec_AckSet ex_buffered [ex_stream 5, ex_stream 6, ex_stream 7]"
  have sy: "map_option (map_option last_executed_message \<circ> sync) (targets ex_buffered 2) =
      Some (Some 4)"
    by (simp add: ex_buffered_def)
  have log: "reliable_from 2 (delivered ?c) = [ex_stream 5, ex_stream 7]"
    unfolding ex_buffered_run by (simp add: reliable_from_def ex_stream_def ex_unreliable_6_def)
  have gap: "\<not> (\<exists>n. reliable_from 2 (delivered ?c) = stream_from ex_stream 5 n)"
  proof
    assume "\<exists>n. reliable_from 2 (delivered ?c) = stream_from ex_stream 5 n"
    then obtain n where n: "[ex_stream 5, ex_stream 7] = stream_from ex_stream 5 n"
      unfolding log by blast
    from arg_cong [OF this, of length] have "n = Suc (Suc 0)" by simp
    have "stream_from ex_stream 5 (Suc (Suc 0)) = [ex_stream 5, ex_stream 6]"
      by (simp add: stream_from_Suc_front)
    with n \<open>n = Suc (Suc 0)\<close> have "ex_stream 7 = ex_stream 6" by simp
    then show False by (simp add: ex_stream_def)
  qed
  from ex_buffered_reached sy ex_buffered_run log gap ex_buffered_debug show ?thesis
    by simp
qed

end
